theory Spec2Isabelle
  imports Main "HOL-Library.AList"
begin

section \<open>Values, payloads and outbound events\<close>

text \<open>
  The session coordinator is the socket.io server at the end of \<^verbatim>\<open>src/src/app/App.tsx\<close>
  (the part after the client component). Its handlers receive JSON payloads, so the
  fields of a payload are JavaScript values. Numbers are restricted to integers,
  \<open>JArr\<close> is an array, and \<open>JObj\<close> is an opaque object that is not an array (the server
  passes such values through without looking inside). A JavaScript string is a
  \<open>string\<close>, one \<open>char\<close> per code unit, restricted to code units below 256.
\<close>

datatype jsval =
    JUndefined
  | JNull
  | JBool bool
  | JNum int
  | JStr string
  | JObj string
  | JArr "jsval list"

text \<open>JavaScript truthiness, as used by \<^verbatim>\<open>!x\<close>, \<^verbatim>\<open>x || y\<close> and \<^verbatim>\<open>if (x)\<close>.\<close>

fun js_truthy :: "jsval \<Rightarrow> bool" where
  "js_truthy JUndefined = False"
| "js_truthy JNull = False"
| "js_truthy (JBool b) = b"
| "js_truthy (JNum n) = (n \<noteq> 0)"
| "js_truthy (JStr s) = (s \<noteq> [])"
| "js_truthy (JObj _) = True"
| "js_truthy (JArr _) = True"

definition js_or :: "jsval \<Rightarrow> jsval \<Rightarrow> jsval" where
  "js_or a b = (if js_truthy a then a else b)"

type_synonym sid = string

text \<open>Payload of \<^verbatim>\<open>join_queue\<close>: \<^verbatim>\<open>{ username, profilePic }\<close>.\<close>

record join_data =
  username :: jsval
  profilePic :: jsval

text \<open>
  Payload of \<^verbatim>\<open>send_message\<close>: the field \<^verbatim>\<open>x\<close> of the source is \<open>m_x\<close>.
\<close>

record msg_data =
  m_roomId :: jsval
  m_text :: jsval
  m_sender :: jsval
  m_type :: jsval
  m_fileContent :: jsval
  m_fileType :: jsval
  m_id :: jsval
  m_replyTo :: jsval
  m_encrypted :: jsval

text \<open>The object emitted with \<^verbatim>\<open>receive_message\<close>.\<close>

record recv_data =
  r_text :: jsval
  r_sender :: jsval
  r_id :: jsval
  r_type :: jsval
  r_fileContent :: jsval
  r_fileType :: jsval
  r_replyTo :: jsval
  r_encrypted :: jsval

datatype out_event =
    ChatStart string jsval jsval
  | PartnerPublicKey string
  | ReceiveMessage recv_data
  | TypingOut
  | StopTypingOut
  | MessageEdited jsval jsval
  | MessageDeleted jsval
  | PartnerDisconnected
  | RateLimitExceeded string

text \<open>One delivery: the connection that receives the event, and the event.\<close>

type_synonym emission = "sid \<times> out_event"

text \<open>
  Inbound events. A payload of \<open>None\<close> is a payload that is \<^verbatim>\<open>undefined\<close> or \<^verbatim>\<open>null\<close>;
  a field that the payload does not have is \<open>JUndefined\<close>.
\<close>

datatype event =
    JoinQueue "join_data option"
  | ExchangeKeys "jsval option"
  | SendMessage "msg_data option"
  | Typing "jsval option"
  | StopTyping "jsval option"
  | EditMessage "(jsval \<times> jsval \<times> jsval) option"
  | DeleteMessage "(jsval \<times> jsval) option"
  | Skip
  | Disconnect

text \<open>
  Destructuring \<^verbatim>\<open>undefined\<close> or \<^verbatim>\<open>null\<close> throws. Nothing in the server catches
  it, so the handler does not complete.
\<close>

datatype error = TypeError

section \<open>The state of the server\<close>

text \<open>\<^verbatim>\<open>socket.data\<close>: the display name and the avatar of a connection.\<close>

record sockdata =
  data_username :: jsval
  data_profilePic :: jsval

text \<open>An entry of \<^verbatim>\<open>messageCounts\<close>: \<^verbatim>\<open>{ count, resetTime }\<close>.\<close>

record rate_record =
  count :: nat
  resetTime :: int

text \<open>
  The four collections of the source, and the pieces of socket.io state its handlers
  depend on: the connected sockets with their \<^verbatim>\<open>data\<close>, and of the adapter its rooms
  (for every room name, its members in the order they joined) and its \<^verbatim>\<open>sids\<close> (the
  ids of the sockets it knows, in the order they were added).

  \<^verbatim>\<open>waitingQueue\<close> holds socket objects in the source; here it holds their ids, and the
  object is looked up in \<open>sockets\<close>. \<^verbatim>\<open>activeRooms\<close> is a JavaScript \<^verbatim>\<open>Map\<close> that the
  source also iterates, so it is an association list in insertion order:
  \<^verbatim>\<open>set\<close> is \<^const>\<open>AList.update\<close> and \<^verbatim>\<open>delete\<close> is \<^const>\<open>AList.delete\<close>.
\<close>

record state =
  sockets :: "sid \<rightharpoonup> sockdata"
  rooms :: "string \<Rightarrow> sid list"
  sids :: "sid list"
  waitingQueue :: "sid list"
  activeRooms :: "(sid \<times> string) list"
  publicKeys :: "sid \<rightharpoonup> string"
  messageCounts :: "sid \<rightharpoonup> rate_record"

definition init :: state where
  "init = \<lparr> sockets = Map.empty, rooms = (\<lambda>_. []), sids = [], waitingQueue = [],
            activeRooms = [], publicKeys = Map.empty, messageCounts = Map.empty \<rparr>"

subsection \<open>socket.io: rooms and emission\<close>

text \<open>
  \<^verbatim>\<open>socket.join(room)\<close> adds the socket to the room (a set: joining twice changes nothing)
  and makes it known to the adapter, \<^verbatim>\<open>socket.leave(room)\<close> removes it from the room, and
  a socket that disconnects has left all its rooms and is unknown to the adapter when its
  \<^verbatim>\<open>disconnect\<close> handler runs. A new socket is in the room named by its own id.
  This is the behaviour of the socket.io library with its default adapter; the library is
  not part of the repository.
\<close>

definition socket_join :: "sid \<Rightarrow> string \<Rightarrow> state \<Rightarrow> state" where
  "socket_join s r st =
     st\<lparr>rooms := (if s \<in> set (rooms st r) then rooms st
                  else (rooms st)(r := rooms st r @ [s])),
        sids := (if s \<in> set (sids st) then sids st else sids st @ [s])\<rparr>"

definition socket_leave :: "sid \<Rightarrow> string \<Rightarrow> state \<Rightarrow> state" where
  "socket_leave s r st = st\<lparr>rooms := (rooms st)(r := filter (\<lambda>m. m \<noteq> s) (rooms st r))\<rparr>"

definition leave_all :: "sid \<Rightarrow> state \<Rightarrow> state" where
  "leave_all s st =
     st\<lparr>rooms := (\<lambda>r. filter (\<lambda>m. m \<noteq> s) (rooms st r)),
        sids := filter (\<lambda>m. m \<noteq> s) (sids st)\<rparr>"

text \<open>\<^verbatim>\<open>socket.emit(ev)\<close>: to the socket itself.\<close>

definition socket_emit :: "sid \<Rightarrow> out_event \<Rightarrow> emission list" where
  "socket_emit s ev = [(s, ev)]"

text \<open>\<^verbatim>\<open>io.to(room).emit(ev)\<close>: to every member of the room.\<close>

definition io_to :: "state \<Rightarrow> string \<Rightarrow> out_event \<Rightarrow> emission list" where
  "io_to st r ev = map (\<lambda>m. (m, ev)) (rooms st r)"

text \<open>\<^verbatim>\<open>socket.to(room).emit(ev)\<close>: to every member of the room but the socket itself.\<close>

definition socket_to :: "state \<Rightarrow> sid \<Rightarrow> string \<Rightarrow> out_event \<Rightarrow> emission list" where
  "socket_to st s r ev = map (\<lambda>m. (m, ev)) (filter (\<lambda>m. m \<noteq> s) (rooms st r))"

text \<open>
  The same with a room taken from a payload. A string names a room. An array makes
  \<^verbatim>\<open>to\<close> add each of its elements to the set of target rooms: the adapter then goes
  through the target rooms in that order and through the members of each, and delivers
  once to every socket it has not delivered to yet; when the set of target rooms is empty
  (an empty array), it delivers to every socket it knows. In all cases the socket itself
  is left out. A value that is neither a string nor an array, and an element of an array
  that is not a string, names no room that a socket of this server has joined.
\<close>

fun room_of :: "state \<Rightarrow> jsval \<Rightarrow> sid list" where
  "room_of st (JStr r) = rooms st r"
| "room_of st _ = []"

definition first_occurrences :: "'a list \<Rightarrow> 'a list" where
  "first_occurrences xs = rev (remdups (rev xs))"

text \<open>The sockets that \<^verbatim>\<open>socket.to(v).emit(...)\<close> of the socket \<open>s\<close> delivers to.\<close>

fun recipients :: "state \<Rightarrow> sid \<Rightarrow> jsval \<Rightarrow> sid list" where
  "recipients st s (JStr r) = filter (\<lambda>m. m \<noteq> s) (rooms st r)"
| "recipients st s (JArr rs) =
     (if rs = [] then filter (\<lambda>m. m \<noteq> s) (sids st)
      else first_occurrences (filter (\<lambda>m. m \<noteq> s) (concat (map (room_of st) rs))))"
| "recipients st s _ = []"

fun socket_to_val :: "state \<Rightarrow> sid \<Rightarrow> jsval \<Rightarrow> out_event \<Rightarrow> emission list" where
  "socket_to_val st s (JStr r) ev = socket_to st s r ev"
| "socket_to_val st s (JArr rs) ev = map (\<lambda>m. (m, ev)) (recipients st s (JArr rs))"
| "socket_to_val st s _ ev = []"

section \<open>The rate limiter\<close>

definition MESSAGE_RATE_LIMIT :: nat where
  "MESSAGE_RATE_LIMIT = 10"

definition RATE_WINDOW :: int where
  "RATE_WINDOW = 1000"

text \<open>
  \<^verbatim>\<open>checkMessageRateLimit(socketId)\<close>, with \<^verbatim>\<open>Date.now()\<close> as the argument \<open>now\<close>
  (milliseconds). It reads and writes \<^verbatim>\<open>messageCounts\<close> only; the result is the
  returned boolean and the table afterwards.
\<close>

definition checkMessageRateLimit ::
  "int \<Rightarrow> sid \<Rightarrow> (sid \<rightharpoonup> rate_record) \<Rightarrow> bool \<times> (sid \<rightharpoonup> rate_record)" where
  "checkMessageRateLimit now socketId mc =
     (case mc socketId of
        None \<Rightarrow> (True, mc(socketId \<mapsto> \<lparr>count = 1, resetTime = now + RATE_WINDOW\<rparr>))
      | Some record \<Rightarrow>
          if now > resetTime record
          then (True, mc(socketId \<mapsto> \<lparr>count = 1, resetTime = now + RATE_WINDOW\<rparr>))
          else if count record \<ge> MESSAGE_RATE_LIMIT then (False, mc)
          else (True, mc(socketId \<mapsto> record\<lparr>count := count record + 1\<rparr>)))"

text \<open>A sequence of calls for one connection, at the given times: the answers, in order,
  and the table afterwards.\<close>

fun check_calls ::
  "int list \<Rightarrow> sid \<Rightarrow> (sid \<rightharpoonup> rate_record) \<Rightarrow> bool list \<times> (sid \<rightharpoonup> rate_record)" where
  "check_calls [] socketId mc = ([], mc)"
| "check_calls (t # ts) socketId mc =
     (let (ok, mc') = checkMessageRateLimit t socketId mc;
          (oks, mc'') = check_calls ts socketId mc'
      in (ok # oks, mc''))"

section \<open>Input validation\<close>

text \<open>
  \<^verbatim>\<open>String.prototype.trim\<close> removes white space at both ends. Among the code units
  below 256 the white space is tab, line feed, vertical tab, form feed, carriage return,
  space and the no-break space.
\<close>

definition js_whitespace :: "char \<Rightarrow> bool" where
  "js_whitespace c = (c \<in> set [CHR 0x09, CHR 0x0A, CHR 0x0B, CHR 0x0C, CHR 0x0D, CHR 0x20, CHR 0xA0])"

definition js_trim :: "string \<Rightarrow> string" where
  "js_trim s = rev (dropWhile js_whitespace (rev (dropWhile js_whitespace s)))"

text \<open>\<^verbatim>\<open>s.replace(/c/g, r)\<close> for a single character \<open>c\<close>.\<close>

definition replace_all :: "char \<Rightarrow> string \<Rightarrow> string \<Rightarrow> string" where
  "replace_all c r s = concat (map (\<lambda>x. if x = c then r else [x]) s)"

text \<open>
  \<^verbatim>\<open>validator.escape\<close> of the validator.js library, which the server imports: eight
  replacements, one after the other, the ampersand first.
\<close>

definition validator_escape :: "string \<Rightarrow> string" where
  "validator_escape s =
     replace_all (CHR 0x60) ''&#96;''
       (replace_all (CHR 0x5C) ''&#x5C;''
         (replace_all CHR ''/'' ''&#x2F;''
           (replace_all CHR ''>'' ''&gt;''
             (replace_all CHR ''<'' ''&lt;''
               (replace_all (CHR 0x27) ''&#x27;''
                 (replace_all (CHR 0x22) ''&quot;''
                   (replace_all CHR ''&'' ''&amp;'' s)))))))"

text \<open>
  \<^verbatim>\<open>sanitizeUsername(username)\<close>. The argument is any JavaScript value; the result is
  always a string.
\<close>

fun sanitizeUsername :: "jsval \<Rightarrow> string" where
  "sanitizeUsername (JStr u) =
     (if u = [] then ''Anonymous''
      else (let sanitized = validator_escape (js_trim u)
            in if take 50 sanitized = [] then ''Anonymous'' else take 50 sanitized))"
| "sanitizeUsername _ = ''Anonymous''"

text \<open>The characters that open or close a tag or an attribute value in HTML.\<close>

definition markup_chars :: "char set" where
  "markup_chars = {CHR ''<'', CHR ''>'', CHR 0x22, CHR 0x27, CHR 0x60}"

section \<open>The handlers\<close>

text \<open>
  \<^verbatim>\<open>io.on('connection', ...)\<close>: a new socket has empty \<^verbatim>\<open>data\<close> and is in the room
  named by its id.
\<close>

definition on_connection :: "sid \<Rightarrow> state \<Rightarrow> state" where
  "on_connection s st =
     socket_join s s
       (st\<lparr>sockets := (sockets st)(s \<mapsto> \<lparr>data_username = JUndefined, data_profilePic = JUndefined\<rparr>)\<rparr>)"

text \<open>
  \<^verbatim>\<open>partnerSocket.data\<close> of a queued socket. The queue holds connected sockets only
  (\<open>queue_ok\<close> below), so the second case is not reached in a run of the server.
\<close>

definition data_of :: "state \<Rightarrow> sid \<Rightarrow> sockdata" where
  "data_of st s =
     (case sockets st s of
        Some d \<Rightarrow> d
      | None \<Rightarrow> \<lparr>data_username = JUndefined, data_profilePic = JUndefined\<rparr>)"

definition room_name :: "sid \<Rightarrow> sid \<Rightarrow> string" where
  "room_name s p = ''room_'' @ s @ ''_'' @ p"

text \<open>\<^verbatim>\<open>socket.on('join_queue', ...)\<close> for the socket \<open>s\<close>.\<close>

definition on_join_queue :: "sid \<Rightarrow> join_data option \<Rightarrow> state \<Rightarrow> state \<times> emission list" where
  "on_join_queue s data st =
     (let d = (case data of
                 None \<Rightarrow> \<lparr>username = JUndefined, profilePic = JUndefined\<rparr>
               | Some d \<Rightarrow> d);
          st1 = st\<lparr>sockets := (sockets st)(s \<mapsto>
                   \<lparr>data_username = JStr (sanitizeUsername (username d)),
                    data_profilePic = profilePic d\<rparr>)\<rparr>
      in if map_of (activeRooms st1) s \<noteq> None then (st1, [])
         else if s \<in> set (waitingQueue st1) then (st1, [])
         else (case waitingQueue st1 of
                 partnerSocket # rest \<Rightarrow>
                   (let roomId = room_name s partnerSocket;
                        st2 = st1\<lparr>waitingQueue := rest\<rparr>;
                        st3 = socket_join partnerSocket roomId (socket_join s roomId st2);
                        st4 = st3\<lparr>activeRooms :=
                                AList.update partnerSocket roomId
                                  (AList.update s roomId (activeRooms st3))\<rparr>
                    in (st4,
                        io_to st4 s
                          (ChatStart roomId (data_username (data_of st4 partnerSocket))
                             (data_profilePic (data_of st4 partnerSocket)))
                        @ io_to st4 partnerSocket
                          (ChatStart roomId (data_username (data_of st4 s))
                             (data_profilePic (data_of st4 s)))))
               | [] \<Rightarrow> (st1\<lparr>waitingQueue := waitingQueue st1 @ [s]\<rparr>, [])))"

text \<open>What \<^verbatim>\<open>join_queue\<close> stores in \<^verbatim>\<open>socket.data\<close> for a payload.\<close>

definition stored_data :: "join_data option \<Rightarrow> sockdata" where
  "stored_data data =
     \<lparr>data_username = JStr (sanitizeUsername (case data of None \<Rightarrow> JUndefined | Some d \<Rightarrow> username d)),
      data_profilePic = (case data of None \<Rightarrow> JUndefined | Some d \<Rightarrow> profilePic d)\<rparr>"

text \<open>\<^verbatim>\<open>socket.on('exchange_keys', ...)\<close>.\<close>

definition on_exchange_keys ::
  "sid \<Rightarrow> jsval option \<Rightarrow> state \<Rightarrow> error + state \<times> emission list" where
  "on_exchange_keys s data st =
     (case data of
        None \<Rightarrow> Inl TypeError
      | Some (JStr publicKey) \<Rightarrow>
          if publicKey \<noteq> [] then
            (let st1 = st\<lparr>publicKeys := (publicKeys st)(s \<mapsto> publicKey)\<rparr>
             in case map_of (activeRooms st1) s of
                  Some roomId \<Rightarrow>
                    if roomId \<noteq> []
                    then Inr (st1, socket_to st1 s roomId (PartnerPublicKey publicKey))
                    else Inr (st1, [])
                | None \<Rightarrow> Inr (st1, []))
          else Inr (st, [])
      | Some _ \<Rightarrow> Inr (st, []))"

text \<open>
  \<^verbatim>\<open>socket.on('send_message', ...)\<close>. The handler reads the clock twice: \<open>now\<close> is
  the \<^verbatim>\<open>Date.now()\<close> of the rate limiter, \<open>stamp\<close> the one of the fallback id.
\<close>

definition on_send_message ::
  "int \<Rightarrow> int \<Rightarrow> sid \<Rightarrow> msg_data option \<Rightarrow> state \<Rightarrow> error + state \<times> emission list" where
  "on_send_message now stamp s data st =
     (let (ok, mc) = checkMessageRateLimit now s (messageCounts st);
          st1 = st\<lparr>messageCounts := mc\<rparr>
      in if \<not> ok
         then Inr (st1, socket_emit s
                    (RateLimitExceeded ''Sending messages too fast. Please slow down.''))
         else (case data of
                 None \<Rightarrow> Inl TypeError
               | Some d \<Rightarrow>
                   Inr (st1, socket_to_val st1 s (m_roomId d)
                     (ReceiveMessage
                        \<lparr>r_text = m_text d,
                         r_sender = JStr ''other'',
                         r_id = js_or (m_id d) (JNum stamp),
                         r_type = js_or (m_type d) (JStr ''text''),
                         r_fileContent = m_fileContent d,
                         r_fileType = m_fileType d,
                         r_replyTo = m_replyTo d,
                         r_encrypted = m_encrypted d\<rparr>))))"

text \<open>The object that \<^verbatim>\<open>send_message\<close> emits for a payload, with the fallback id \<open>stamp\<close>.\<close>

definition relayed :: "int \<Rightarrow> msg_data \<Rightarrow> recv_data" where
  "relayed stamp d =
     \<lparr>r_text = m_text d, r_sender = JStr ''other'', r_id = js_or (m_id d) (JNum stamp),
      r_type = js_or (m_type d) (JStr ''text''), r_fileContent = m_fileContent d,
      r_fileType = m_fileType d, r_replyTo = m_replyTo d, r_encrypted = m_encrypted d\<rparr>"

text \<open>The four plain relays.\<close>

definition on_typing :: "sid \<Rightarrow> jsval option \<Rightarrow> state \<Rightarrow> error + state \<times> emission list" where
  "on_typing s data st =
     (case data of
        None \<Rightarrow> Inl TypeError
      | Some roomId \<Rightarrow> Inr (st, socket_to_val st s roomId TypingOut))"

definition on_stop_typing :: "sid \<Rightarrow> jsval option \<Rightarrow> state \<Rightarrow> error + state \<times> emission list" where
  "on_stop_typing s data st =
     (case data of
        None \<Rightarrow> Inl TypeError
      | Some roomId \<Rightarrow> Inr (st, socket_to_val st s roomId StopTypingOut))"

definition on_edit_message ::
  "sid \<Rightarrow> (jsval \<times> jsval \<times> jsval) option \<Rightarrow> state \<Rightarrow> error + state \<times> emission list" where
  "on_edit_message s data st =
     (case data of
        None \<Rightarrow> Inl TypeError
      | Some (roomId, i, t) \<Rightarrow> Inr (st, socket_to_val st s roomId (MessageEdited i t)))"

definition on_delete_message ::
  "sid \<Rightarrow> (jsval \<times> jsval) option \<Rightarrow> state \<Rightarrow> error + state \<times> emission list" where
  "on_delete_message s data st =
     (case data of
        None \<Rightarrow> Inl TypeError
      | Some (roomId, i) \<Rightarrow> Inr (st, socket_to_val st s roomId (MessageDeleted i)))"

text \<open>
  The partner lookup of \<^verbatim>\<open>skip\<close> and \<^verbatim>\<open>disconnect\<close>: the first entry of
  \<^verbatim>\<open>activeRooms\<close>, in insertion order, with the same room and another id.
\<close>

definition find_partner :: "(sid \<times> string) list \<Rightarrow> string \<Rightarrow> sid \<Rightarrow> sid option" where
  "find_partner ar r s = map_option fst (find (\<lambda>(i, room). room = r \<and> i \<noteq> s) ar)"

text \<open>\<^verbatim>\<open>socket.on('skip', ...)\<close>.\<close>

definition on_skip :: "sid \<Rightarrow> state \<Rightarrow> state \<times> emission list" where
  "on_skip s st =
     (let (st3, out) =
        (case map_of (activeRooms st) s of
           None \<Rightarrow> (st, [])
         | Some roomId \<Rightarrow>
             if roomId \<noteq> [] then
               (let partnerId = find_partner (activeRooms st) roomId s;
                    out = socket_to st s roomId PartnerDisconnected;
                    st1 = socket_leave s roomId st;
                    st2 = st1\<lparr>activeRooms := AList.delete s (activeRooms st1)\<rparr>
                in case partnerId of
                     None \<Rightarrow> (st2, out)
                   | Some p \<Rightarrow>
                       if p \<noteq> []
                       then (st2\<lparr>activeRooms := AList.delete p (activeRooms st2)\<rparr>, out)
                       else (st2, out))
             else (st, []))
      in (st3\<lparr>waitingQueue := filter (\<lambda>x. x \<noteq> s) (waitingQueue st3)\<rparr>, out))"

text \<open>
  \<^verbatim>\<open>socket.on('disconnect', ...)\<close>. When the handler runs, socket.io has removed the
  socket from all its rooms and from the connected sockets.
\<close>

definition on_disconnect :: "sid \<Rightarrow> state \<Rightarrow> state \<times> emission list" where
  "on_disconnect s st =
     (let st0 = (leave_all s st)\<lparr>sockets := (sockets st)(s := None)\<rparr>;
          st1 = st0\<lparr>waitingQueue := filter (\<lambda>x. x \<noteq> s) (waitingQueue st0),
                    publicKeys := (publicKeys st0)(s := None),
                    messageCounts := (messageCounts st0)(s := None)\<rparr>
      in case map_of (activeRooms st1) s of
           None \<Rightarrow> (st1, [])
         | Some roomId \<Rightarrow>
             if roomId \<noteq> [] then
               (let partnerId = find_partner (activeRooms st1) roomId s;
                    out = socket_to st1 s roomId PartnerDisconnected;
                    st2 = st1\<lparr>activeRooms := AList.delete s (activeRooms st1)\<rparr>
                in case partnerId of
                     None \<Rightarrow> (st2, out)
                   | Some p \<Rightarrow>
                       if p \<noteq> []
                       then (st2\<lparr>activeRooms := AList.delete p (activeRooms st2),
                                 publicKeys := (publicKeys st2)(p := None)\<rparr>, out)
                       else (st2, out))
             else (st1, []))"

text \<open>One inbound event of the socket \<open>s\<close>, with the two readings of the clock.\<close>

fun handle :: "int \<Rightarrow> int \<Rightarrow> sid \<Rightarrow> event \<Rightarrow> state \<Rightarrow> error + state \<times> emission list" where
  "handle now stamp s (JoinQueue d) st = Inr (on_join_queue s d st)"
| "handle now stamp s (ExchangeKeys d) st = on_exchange_keys s d st"
| "handle now stamp s (SendMessage d) st = on_send_message now stamp s d st"
| "handle now stamp s (Typing d) st = on_typing s d st"
| "handle now stamp s (StopTyping d) st = on_stop_typing s d st"
| "handle now stamp s (EditMessage d) st = on_edit_message s d st"
| "handle now stamp s (DeleteMessage d) st = on_delete_message s d st"
| "handle now stamp s Skip st = Inr (on_skip s st)"
| "handle now stamp s Disconnect st = Inr (on_disconnect s st)"

section \<open>The states the server can be in\<close>

text \<open>
  socket.io gives every socket an id of twenty characters that no other connected socket
  has, and delivers events of connected sockets only. A handler that throws ends the run.
\<close>

definition valid_sid :: "sid \<Rightarrow> bool" where
  "valid_sid s = (length s = 20)"

inductive reachable :: "state \<Rightarrow> bool" where
  start: "reachable init"
| connect: "reachable st \<Longrightarrow> valid_sid s \<Longrightarrow> sockets st s = None \<Longrightarrow> reachable (on_connection s st)"
| event: "reachable st \<Longrightarrow> sockets st s \<noteq> None \<Longrightarrow> handle now stamp s ev st = Inr (st', out)
          \<Longrightarrow> reachable st'"

section \<open>Invariants of the reachable states\<close>

text \<open>Every connected socket has a socket.io id.\<close>

definition ids_ok :: "state \<Rightarrow> bool" where
  "ids_ok st = (\<forall>s. s \<in> dom (sockets st) \<longrightarrow> valid_sid s)"

text \<open>The queue has no duplicates, and holds connected sockets that are in no room.\<close>

definition queue_ok :: "state \<Rightarrow> bool" where
  "queue_ok st =
     (distinct (waitingQueue st) \<and>
      (\<forall>s \<in> set (waitingQueue st). s \<in> dom (sockets st) \<and> map_of (activeRooms st) s = None))"

text \<open>
  \<^verbatim>\<open>activeRooms\<close> has one entry per key; the key of an entry is connected, and its room
  is named after the key and one other connected socket, which maps to the same room.
\<close>

definition registry_ok :: "state \<Rightarrow> bool" where
  "registry_ok st =
     (distinct (map fst (activeRooms st)) \<and>
      (\<forall>k r. map_of (activeRooms st) k = Some r \<longrightarrow>
         k \<in> dom (sockets st) \<and>
         (\<exists>p. p \<noteq> k \<and> p \<in> dom (sockets st) \<and> (r = room_name k p \<or> r = room_name p k) \<and>
              map_of (activeRooms st) p = Some r)))"

text \<open>
  The socket.io rooms: the room named by an id holds that socket while it is connected,
  members are connected and listed once, a room named after two ids holds at most those
  two, and a socket that maps to a room in \<^verbatim>\<open>activeRooms\<close> is a member of it.
\<close>

definition rooms_ok :: "state \<Rightarrow> bool" where
  "rooms_ok st =
     ((\<forall>s. valid_sid s \<longrightarrow> rooms st s = (if s \<in> dom (sockets st) then [s] else [])) \<and>
      (\<forall>r. distinct (rooms st r) \<and> (\<forall>m \<in> set (rooms st r). m \<in> dom (sockets st))) \<and>
      (\<forall>a b. valid_sid a \<and> valid_sid b \<longrightarrow> set (rooms st (room_name a b)) \<subseteq> {a, b}) \<and>
      (\<forall>k r. map_of (activeRooms st) k = Some r \<longrightarrow> k \<in> set (rooms st r)))"

definition server_inv :: "state \<Rightarrow> bool" where
  "server_inv st = (ids_ok st \<and> queue_ok st \<and> registry_ok st \<and> rooms_ok st)"

text \<open>The connections that map to the room \<open>r\<close>, in the order of \<^verbatim>\<open>activeRooms\<close>.\<close>

definition members_of :: "(sid \<times> string) list \<Rightarrow> string \<Rightarrow> sid list" where
  "members_of ar r = map fst (filter (\<lambda>(k, room). room = r) ar)"

section \<open>An example run\<close>

text \<open>
  Three sockets connect; the first joins the queue as Alice, the second joins as Bob and is
  paired with her; the third stays idle.
\<close>

definition sidA :: sid where
  "sidA = ''AAAAAAAAAAAAAAAAAAAA''"

definition sidB :: sid where
  "sidB = ''BBBBBBBBBBBBBBBBBBBB''"

definition sidC :: sid where
  "sidC = ''CCCCCCCCCCCCCCCCCCCC''"

definition joinA :: join_data where
  "joinA = \<lparr>username = JStr ''Alice'', profilePic = JObj ''alice.png''\<rparr>"

definition joinB :: join_data where
  "joinB = \<lparr>username = JStr ''Bob'', profilePic = JNull\<rparr>"

definition st_lobby :: state where
  "st_lobby = on_connection sidC (on_connection sidB (on_connection sidA init))"

definition st_waiting :: state where
  "st_waiting = fst (on_join_queue sidA (Some joinA) st_lobby)"

definition st_paired :: state where
  "st_paired = fst (on_join_queue sidB (Some joinB) st_waiting)"

text \<open>The room of the pair: the requester's id comes first.\<close>

definition roomBA :: string where
  "roomBA = room_name sidB sidA"

text \<open>A message of the second socket to the room of the pair, with the id 0.\<close>

definition msg_hi :: msg_data where
  "msg_hi =
     \<lparr>m_roomId = JStr roomBA, m_text = JStr ''hi'', m_sender = JStr ''me'',
      m_type = JUndefined, m_fileContent = JUndefined, m_fileType = JUndefined,
      m_id = JNum 0, m_replyTo = JUndefined, m_encrypted = JUndefined\<rparr>"

text \<open>What the other side receives when \<open>msg_hi\<close> is handled at the time 42.\<close>

definition recv_hi :: recv_data where
  "recv_hi =
     \<lparr>r_text = JStr ''hi'', r_sender = JStr ''other'', r_id = JNum 42, r_type = JStr ''text'',
      r_fileContent = JUndefined, r_fileType = JUndefined, r_replyTo = JUndefined,
      r_encrypted = JUndefined\<rparr>"

text \<open>The paired state after the second socket has published a key.\<close>

definition st_keyed :: state where
  "st_keyed = st_paired\<lparr>publicKeys := [sidB \<mapsto> ''KEY-B'']\<rparr>"

section \<open>Properties\<close>

subsection \<open>The rate limiter\<close>

lemma check_calls_in_window:
  "mc sid = Some r \<Longrightarrow> \<forall>t\<in>set ts. t \<le> resetTime r \<Longrightarrow> count r \<le> MESSAGE_RATE_LIMIT \<Longrightarrow>
   fst (check_calls ts sid mc) =
     replicate (min (MESSAGE_RATE_LIMIT - count r) (length ts)) True
        @ replicate (length ts - (MESSAGE_RATE_LIMIT - count r)) False
   \<and> snd (check_calls ts sid mc) sid =
       Some (r\<lparr>count := min MESSAGE_RATE_LIMIT (count r + length ts)\<rparr>)"
proof (induction ts arbitrary: mc r)
  case Nil
  then show ?case by simp
next
  case (Cons t ts)
  show ?case
  proof (cases "count r \<ge> MESSAGE_RATE_LIMIT")
    case True
    with Cons.prems have c: "count r = MESSAGE_RATE_LIMIT" by simp
    have step: "checkMessageRateLimit t sid mc = (False, mc)"
      using Cons.prems c by (simp add: checkMessageRateLimit_def)
    from Cons.IH[of mc r] Cons.prems step c show ?thesis
      by (simp add: split_beta replicate_app_Cons_same)
  next
    case False
    let ?r' = "r\<lparr>count := count r + 1\<rparr>"
    let ?mc' = "mc(sid \<mapsto> ?r')"
    have step: "checkMessageRateLimit t sid mc = (True, ?mc')"
      using Cons.prems False by (simp add: checkMessageRateLimit_def)
    have "fst (check_calls ts sid ?mc') =
       replicate (min (MESSAGE_RATE_LIMIT - count ?r') (length ts)) True
        @ replicate (length ts - (MESSAGE_RATE_LIMIT - count ?r')) False
      \<and> snd (check_calls ts sid ?mc') sid =
       Some (?r'\<lparr>count := min MESSAGE_RATE_LIMIT (count ?r' + length ts)\<rparr>)"
      using Cons.prems False by (intro Cons.IH) auto
    moreover obtain k where k: "MESSAGE_RATE_LIMIT - count r = Suc k"
      "MESSAGE_RATE_LIMIT - count ?r' = k"
      using False by (cases "MESSAGE_RATE_LIMIT - count r") auto
    moreover have "min MESSAGE_RATE_LIMIT (count ?r' + length ts) =
                   min MESSAGE_RATE_LIMIT (count r + length (t # ts))"
      by simp
    ultimately show ?thesis using step
      by (simp add: split_beta del: min_less_iff_conj)
  qed
qed

lemma check_calls_append:
  "check_calls (xs @ ys) sid mc =
     (fst (check_calls xs sid mc) @ fst (check_calls ys sid (snd (check_calls xs sid mc))),
      snd (check_calls ys sid (snd (check_calls xs sid mc))))"
  by (induction xs arbitrary: mc) (simp_all add: split_beta)

lemma check_new_window:
  "(case mc sid of None \<Rightarrow> True | Some r \<Rightarrow> now > resetTime r) \<Longrightarrow>
   checkMessageRateLimit now sid mc =
     (True, mc(sid \<mapsto> \<lparr>count = 1, resetTime = now + RATE_WINDOW\<rparr>))"
  by (cases "mc sid") (simp_all add: checkMessageRateLimit_def)

lemma check_burst:
  assumes fresh: "case mc sid of None \<Rightarrow> True | Some r \<Rightarrow> t0 > resetTime r"
    and len: "length ts = MESSAGE_RATE_LIMIT"
    and inside: "\<forall>t\<in>set ts. t \<le> t0 + RATE_WINDOW"
    and after: "t0 + RATE_WINDOW < t'"
  shows "fst (check_calls (t0 # ts @ [t']) sid mc) = replicate MESSAGE_RATE_LIMIT True @ [False, True]"
proof -
  let ?r = "\<lparr>count = 1, resetTime = t0 + RATE_WINDOW\<rparr>"
  let ?mc1 = "mc(sid \<mapsto> ?r)"
  have first: "checkMessageRateLimit t0 sid mc = (True, ?mc1)"
    using fresh by (rule check_new_window)
  have mid: "fst (check_calls ts sid ?mc1) =
       replicate (min (MESSAGE_RATE_LIMIT - count ?r) (length ts)) True
        @ replicate (length ts - (MESSAGE_RATE_LIMIT - count ?r)) False
      \<and> snd (check_calls ts sid ?mc1) sid =
       Some (?r\<lparr>count := min MESSAGE_RATE_LIMIT (count ?r + length ts)\<rparr>)"
    using inside by (intro check_calls_in_window) (auto simp: MESSAGE_RATE_LIMIT_def)
  have res: "fst (check_calls ts sid ?mc1) = replicate 9 True @ [False]"
    using mid len by (simp add: MESSAGE_RATE_LIMIT_def)
  have rec: "snd (check_calls ts sid ?mc1) sid = Some \<lparr>count = 10, resetTime = t0 + RATE_WINDOW\<rparr>"
    using mid len by (simp add: MESSAGE_RATE_LIMIT_def)
  have last: "fst (checkMessageRateLimit t' sid (snd (check_calls ts sid ?mc1)))"
    using rec after by (simp add: checkMessageRateLimit_def)
  show ?thesis
    using first res last
    by (simp add: check_calls_append split_beta MESSAGE_RATE_LIMIT_def
          numeral_eq_Suc)
qed

text \<open>
  C2. The limiter is a fixed window of \<open>RATE_WINDOW\<close> = 1000 ms with
  \<open>MESSAGE_RATE_LIMIT\<close> = 10 calls, kept per connection. On the first call of a
  connection, or on a call later than the end of its window, the count becomes 1, the
  window ends at \<open>now + RATE_WINDOW\<close> and the call is allowed. Otherwise a count below the
  limit is incremented and the call is allowed, and at the limit the call is rejected
  and the table (count and end of the window) stays as it is. No call touches the record
  of another connection. So of eleven calls that start a window and stay inside it, the
  first ten are allowed and the eleventh is rejected, and a call after the end of the
  window is allowed again.
\<close>

theorem checkMessageRateLimit_fixed_window:
  "MESSAGE_RATE_LIMIT = 10 \<and> RATE_WINDOW = 1000
   \<and> ((case mc sid of None \<Rightarrow> True | Some r \<Rightarrow> now > resetTime r) \<longrightarrow>
        checkMessageRateLimit now sid mc =
          (True, mc(sid \<mapsto> \<lparr>count = 1, resetTime = now + RATE_WINDOW\<rparr>)))
   \<and> (\<forall>r. mc sid = Some r \<and> now \<le> resetTime r \<and> count r < MESSAGE_RATE_LIMIT \<longrightarrow>
        checkMessageRateLimit now sid mc = (True, mc(sid \<mapsto> r\<lparr>count := count r + 1\<rparr>)))
   \<and> (\<forall>r. mc sid = Some r \<and> now \<le> resetTime r \<and> count r \<ge> MESSAGE_RATE_LIMIT \<longrightarrow>
        checkMessageRateLimit now sid mc = (False, mc))
   \<and> (\<forall>s'. s' \<noteq> sid \<longrightarrow> snd (checkMessageRateLimit now sid mc) s' = mc s')
   \<and> ((case mc sid of None \<Rightarrow> True | Some r \<Rightarrow> t0 > resetTime r)
        \<and> length ts = MESSAGE_RATE_LIMIT \<and> (\<forall>t\<in>set ts. t \<le> t0 + RATE_WINDOW)
        \<and> t0 + RATE_WINDOW < t' \<longrightarrow>
        fst (check_calls (t0 # ts @ [t']) sid mc) =
          replicate MESSAGE_RATE_LIMIT True @ [False, True])"
proof (intro conjI impI allI)
  show "MESSAGE_RATE_LIMIT = 10" by (simp add: MESSAGE_RATE_LIMIT_def)
  show "RATE_WINDOW = 1000" by (simp add: RATE_WINDOW_def)
next
  assume "case mc sid of None \<Rightarrow> True | Some r \<Rightarrow> now > resetTime r"
  then show "checkMessageRateLimit now sid mc =
      (True, mc(sid \<mapsto> \<lparr>count = 1, resetTime = now + RATE_WINDOW\<rparr>))"
    by (rule check_new_window)
next
  fix r
  assume "mc sid = Some r \<and> now \<le> resetTime r \<and> count r < MESSAGE_RATE_LIMIT"
  then show "checkMessageRateLimit now sid mc = (True, mc(sid \<mapsto> r\<lparr>count := count r + 1\<rparr>))"
    by (simp add: checkMessageRateLimit_def)
next
  fix r
  assume "mc sid = Some r \<and> now \<le> resetTime r \<and> count r \<ge> MESSAGE_RATE_LIMIT"
  then show "checkMessageRateLimit now sid mc = (False, mc)"
    by (simp add: checkMessageRateLimit_def)
next
  fix s' :: sid
  assume "s' \<noteq> sid"
  then show "snd (checkMessageRateLimit now sid mc) s' = mc s'"
    by (simp add: checkMessageRateLimit_def split: option.splits)
next
  assume "(case mc sid of None \<Rightarrow> True | Some r \<Rightarrow> t0 > resetTime r)
        \<and> length ts = MESSAGE_RATE_LIMIT \<and> (\<forall>t\<in>set ts. t \<le> t0 + RATE_WINDOW)
        \<and> t0 + RATE_WINDOW < t'"
  then show "fst (check_calls (t0 # ts @ [t']) sid mc) =
          replicate MESSAGE_RATE_LIMIT True @ [False, True]"
    by (intro check_burst) simp_all
qed

lemma sid_distinct:
  "sidA \<noteq> sidB" "sidB \<noteq> sidA" "sidA \<noteq> sidC" "sidC \<noteq> sidA" "sidB \<noteq> sidC" "sidC \<noteq> sidB"
  by (simp_all add: sidA_def sidB_def sidC_def)

theorem checkMessageRateLimit_fixed_window_witness:
  "checkMessageRateLimit 5 sidA Map.empty =
     (True, [sidA \<mapsto> \<lparr>count = 1, resetTime = 1005\<rparr>])
   \<and> checkMessageRateLimit 1006 sidA [sidA \<mapsto> \<lparr>count = 10, resetTime = 1005\<rparr>] =
     (True, [sidA \<mapsto> \<lparr>count = 1, resetTime = 2006\<rparr>])
   \<and> checkMessageRateLimit 7 sidA [sidA \<mapsto> \<lparr>count = 3, resetTime = 1005\<rparr>] =
     (True, [sidA \<mapsto> \<lparr>count = 4, resetTime = 1005\<rparr>])
   \<and> checkMessageRateLimit 1005 sidA [sidA \<mapsto> \<lparr>count = 10, resetTime = 1005\<rparr>] =
     (False, [sidA \<mapsto> \<lparr>count = 10, resetTime = 1005\<rparr>])
   \<and> snd (checkMessageRateLimit 7 sidA [sidB \<mapsto> \<lparr>count = 10, resetTime = 1005\<rparr>]) sidB =
     Some \<lparr>count = 10, resetTime = 1005\<rparr>
   \<and> fst (check_calls (0 # [1, 2, 3, 4, 5, 6, 7, 8, 9, 1000] @ [1001]) sidA Map.empty) =
     [True, True, True, True, True, True, True, True, True, True, False, True]"
proof -
  have a: "checkMessageRateLimit 5 sidA Map.empty =
     (True, [sidA \<mapsto> \<lparr>count = 1, resetTime = 1005\<rparr>])"
    using checkMessageRateLimit_fixed_window [where mc = Map.empty and sid = sidA and now = 5]
    by (simp add: RATE_WINDOW_def MESSAGE_RATE_LIMIT_def)
  have b: "checkMessageRateLimit 1006 sidA [sidA \<mapsto> \<lparr>count = 10, resetTime = 1005\<rparr>] =
     (True, [sidA \<mapsto> \<lparr>count = 1, resetTime = 2006\<rparr>])"
    using checkMessageRateLimit_fixed_window
      [where mc = "[sidA \<mapsto> \<lparr>count = 10, resetTime = 1005\<rparr>]" and sid = sidA and now = 1006]
    by (simp add: RATE_WINDOW_def MESSAGE_RATE_LIMIT_def)
  have c: "checkMessageRateLimit 7 sidA [sidA \<mapsto> \<lparr>count = 3, resetTime = 1005\<rparr>] =
     (True, [sidA \<mapsto> \<lparr>count = 4, resetTime = 1005\<rparr>])"
    using checkMessageRateLimit_fixed_window
      [where mc = "[sidA \<mapsto> \<lparr>count = 3, resetTime = 1005\<rparr>]" and sid = sidA and now = 7]
    by (simp add: RATE_WINDOW_def MESSAGE_RATE_LIMIT_def)
  have d: "checkMessageRateLimit 1005 sidA [sidA \<mapsto> \<lparr>count = 10, resetTime = 1005\<rparr>] =
     (False, [sidA \<mapsto> \<lparr>count = 10, resetTime = 1005\<rparr>])"
    using checkMessageRateLimit_fixed_window
      [where mc = "[sidA \<mapsto> \<lparr>count = 10, resetTime = 1005\<rparr>]" and sid = sidA and now = 1005]
    by (simp add: RATE_WINDOW_def MESSAGE_RATE_LIMIT_def)
  have e: "snd (checkMessageRateLimit 7 sidA [sidB \<mapsto> \<lparr>count = 10, resetTime = 1005\<rparr>]) sidB =
     Some \<lparr>count = 10, resetTime = 1005\<rparr>"
    using checkMessageRateLimit_fixed_window
      [where mc = "[sidB \<mapsto> \<lparr>count = 10, resetTime = 1005\<rparr>]" and sid = sidA and now = 7]
    by (simp add: sid_distinct RATE_WINDOW_def MESSAGE_RATE_LIMIT_def)
  have f: "fst (check_calls (0 # [1, 2, 3, 4, 5, 6, 7, 8, 9, 1000] @ [1001]) sidA Map.empty) =
     [True, True, True, True, True, True, True, True, True, True, False, True]"
  proof -
    let ?ts = "[1, 2, 3, 4, 5, 6, 7, 8, 9, 1000] :: int list"
    have hyp: "(case Map.empty sidA of None \<Rightarrow> True | Some r \<Rightarrow> (0::int) > resetTime r)
        \<and> length ?ts = MESSAGE_RATE_LIMIT \<and> (\<forall>t\<in>set ?ts. t \<le> 0 + RATE_WINDOW)
        \<and> 0 + RATE_WINDOW < (1001::int)"
      by (simp add: RATE_WINDOW_def MESSAGE_RATE_LIMIT_def)
    have "fst (check_calls (0 # ?ts @ [1001]) sidA Map.empty) =
          replicate MESSAGE_RATE_LIMIT True @ [False, True]"
      using checkMessageRateLimit_fixed_window
        [where mc = Map.empty and sid = sidA and ?t0.0 = 0 and ts = ?ts and t' = 1001] hyp
      by blast
    also have "replicate MESSAGE_RATE_LIMIT True @ [False, True] =
       [True, True, True, True, True, True, True, True, True, True, False, True]"
      by (simp add: MESSAGE_RATE_LIMIT_def numeral_eq_Suc)
    finally show ?thesis .
  qed
  from a b c d e f show ?thesis by blast
qed

subsection \<open>Input validation\<close>

lemma replace_all_absent:
  "d \<notin> set r \<Longrightarrow> d = c \<or> d \<notin> set s \<Longrightarrow> d \<notin> set (replace_all c r s)"
  by (auto simp: replace_all_def split: if_splits)

lemma validator_escape_lt: "CHR ''<'' \<notin> set (validator_escape s)"
  unfolding validator_escape_def by (rule replace_all_absent, simp, simp)+

lemma validator_escape_gt: "CHR ''>'' \<notin> set (validator_escape s)"
  unfolding validator_escape_def by (rule replace_all_absent, simp, simp)+

lemma validator_escape_dquote: "CHR 0x22 \<notin> set (validator_escape s)"
  unfolding validator_escape_def by (rule replace_all_absent, simp, simp)+

lemma validator_escape_squote: "CHR 0x27 \<notin> set (validator_escape s)"
  unfolding validator_escape_def by (rule replace_all_absent, simp, simp)+

lemma validator_escape_backtick: "CHR 0x60 \<notin> set (validator_escape s)"
  unfolding validator_escape_def by (rule replace_all_absent, simp, simp)+

lemma validator_escape_no_markup: "set (validator_escape s) \<inter> markup_chars = {}"
  using validator_escape_lt validator_escape_gt validator_escape_dquote
    validator_escape_squote validator_escape_backtick
  by (simp add: markup_chars_def)

lemma sanitizeUsername_no_markup: "set (sanitizeUsername u) \<inter> markup_chars = {}"
proof (cases u)
  case (JStr s)
  have "set (take 50 (validator_escape (js_trim s))) \<inter> markup_chars = {}"
    using validator_escape_no_markup [of "js_trim s"] set_take_subset [of 50 "validator_escape (js_trim s)"]
    by blast
  moreover have "set ''Anonymous'' \<inter> markup_chars = {}"
    by (simp add: markup_chars_def)
  ultimately show ?thesis using JStr by (simp add: Let_def)
qed (simp_all add: markup_chars_def)

lemma sanitizeUsername_length: "length (sanitizeUsername u) \<le> 50 \<and> sanitizeUsername u \<noteq> []"
  by (cases u) (simp_all add: Let_def)

lemma sanitizeUsername_script:
  "sanitizeUsername (JStr ''<script>x</script>'') = ''&lt;script&gt;x&lt;&#x2F;script&gt;''"
  by (simp add: validator_escape_def replace_all_def js_trim_def js_whitespace_def)

lemma on_join_queue_sockets:
  "sockets (fst (on_join_queue s data st)) =
     (sockets st)(s \<mapsto>
        \<lparr>data_username = JStr (sanitizeUsername (case data of None \<Rightarrow> JUndefined | Some d \<Rightarrow> username d)),
         data_profilePic = (case data of None \<Rightarrow> JUndefined | Some d \<Rightarrow> profilePic d)\<rparr>)"
  by (simp add: on_join_queue_def Let_def socket_join_def split: list.splits option.splits)

text \<open>
  C9. After a \<^verbatim>\<open>join_queue\<close> the connection's stored display name is
  \<open>sanitizeUsername\<close> of the submitted value, whatever branch the handler takes. That
  name has between 1 and 50 characters and contains none of the characters
  \<^verbatim>\<open><\<close>, \<^verbatim>\<open>>\<close>, double quote, single quote and backtick; the input
  \<^verbatim>\<open><script>x</script>\<close> is stored as \<^verbatim>\<open>&lt;script&gt;x&lt;&#x2F;script&gt;\<close>. A
  missing username (no payload, or no such field), a value that is not a string, the empty
  string and a string that is empty after trimming and escaping all give \<^verbatim>\<open>Anonymous\<close>.
\<close>

theorem sanitizeUsername_stored:
  "data_username (data_of (fst (on_join_queue s data st)) s) =
     JStr (sanitizeUsername (case data of None \<Rightarrow> JUndefined | Some d \<Rightarrow> username d))
   \<and> length (sanitizeUsername u) \<le> 50
   \<and> sanitizeUsername u \<noteq> []
   \<and> set (sanitizeUsername u) \<inter> markup_chars = {}
   \<and> sanitizeUsername (JStr ''<script>x</script>'') = ''&lt;script&gt;x&lt;&#x2F;script&gt;''
   \<and> sanitizeUsername JUndefined = ''Anonymous''
   \<and> ((\<forall>str. u \<noteq> JStr str) \<longrightarrow> sanitizeUsername u = ''Anonymous'')
   \<and> sanitizeUsername (JStr []) = ''Anonymous''
   \<and> (validator_escape (js_trim str) = [] \<longrightarrow> sanitizeUsername (JStr str) = ''Anonymous'')"
proof (intro conjI impI)
  show "data_username (data_of (fst (on_join_queue s data st)) s) =
     JStr (sanitizeUsername (case data of None \<Rightarrow> JUndefined | Some d \<Rightarrow> username d))"
    by (simp add: data_of_def on_join_queue_sockets)
  show "length (sanitizeUsername u) \<le> 50" "sanitizeUsername u \<noteq> []"
    using sanitizeUsername_length by simp_all
  show "set (sanitizeUsername u) \<inter> markup_chars = {}"
    by (rule sanitizeUsername_no_markup)
  show "sanitizeUsername (JStr ''<script>x</script>'') = ''&lt;script&gt;x&lt;&#x2F;script&gt;''"
    by (rule sanitizeUsername_script)
  show "sanitizeUsername JUndefined = ''Anonymous''" "sanitizeUsername (JStr []) = ''Anonymous''"
    by simp_all
next
  assume "\<forall>str. u \<noteq> JStr str"
  then show "sanitizeUsername u = ''Anonymous''" by (cases u) simp_all
next
  assume "validator_escape (js_trim str) = []"
  then show "sanitizeUsername (JStr str) = ''Anonymous''" by simp
qed

theorem sanitizeUsername_stored_witness:
  "sanitizeUsername (JNum 7) = ''Anonymous''
   \<and> validator_escape (js_trim ''   '') = []
   \<and> sanitizeUsername (JStr ''   '') = ''Anonymous''
   \<and> length (sanitizeUsername (JStr (replicate 60 CHR ''<''))) \<le> 50
   \<and> set (sanitizeUsername (JStr (replicate 60 CHR ''<''))) \<inter> markup_chars = {}"
proof -
  have ws: "validator_escape (js_trim ''   '') = []"
    by (simp add: validator_escape_def replace_all_def js_trim_def js_whitespace_def)
  have "\<forall>str. JNum 7 \<noteq> JStr str" by simp
  then have a: "sanitizeUsername (JNum 7) = ''Anonymous''"
    using sanitizeUsername_stored [where u = "JNum 7"] by blast
  have b: "sanitizeUsername (JStr ''   '') = ''Anonymous''"
    using sanitizeUsername_stored [where str = "''   ''"] ws by blast
  have c: "length (sanitizeUsername (JStr (replicate 60 CHR ''<''))) \<le> 50
     \<and> set (sanitizeUsername (JStr (replicate 60 CHR ''<''))) \<inter> markup_chars = {}"
    using sanitizeUsername_stored [where u = "JStr (replicate 60 CHR ''<'')"] by blast
  from a b c ws show ?thesis by blast
qed

subsection \<open>Room names\<close>

lemma room_name_inj:
  "valid_sid a \<Longrightarrow> valid_sid c \<Longrightarrow> room_name a b = room_name c d \<longleftrightarrow> a = c \<and> b = d"
  by (auto simp: room_name_def valid_sid_def)

lemma room_name_not_sid:
  "valid_sid a \<Longrightarrow> valid_sid b \<Longrightarrow> valid_sid s \<Longrightarrow> room_name a b \<noteq> s"
proof
  assume v: "valid_sid a" "valid_sid b" "valid_sid s" and eq: "room_name a b = s"
  have "length (room_name a b) = 46" using v by (simp add: room_name_def valid_sid_def)
  with eq v show False by (simp add: valid_sid_def)
qed

lemma room_name_nonempty: "room_name a b \<noteq> []"
  by (simp add: room_name_def)

lemma valid_sid_nonempty: "valid_sid s \<Longrightarrow> s \<noteq> []"
  by (auto simp: valid_sid_def)

subsection \<open>The partner of a paired connection\<close>

lemma registry_room:
  assumes "ids_ok st" "registry_ok st" "map_of (activeRooms st) k = Some r"
  obtains p where "p \<noteq> k" "valid_sid k" "valid_sid p" "p \<in> dom (sockets st)"
    "map_of (activeRooms st) p = Some r"
    "r = room_name k p \<or> r = room_name p k"
    "\<And>q. map_of (activeRooms st) q = Some r \<Longrightarrow> q = k \<or> q = p"
proof -
  from assms obtain p where p: "p \<noteq> k" "k \<in> dom (sockets st)" "p \<in> dom (sockets st)"
      "r = room_name k p \<or> r = room_name p k" "map_of (activeRooms st) p = Some r"
    unfolding registry_ok_def by blast
  have vk: "valid_sid k" and vp: "valid_sid p"
    using assms(1) p(2,3) by (auto simp: ids_ok_def)
  have uniq: "q = k \<or> q = p" if q: "map_of (activeRooms st) q = Some r" for q
  proof -
    from assms(2) q obtain q' where q': "q \<in> dom (sockets st)" "q' \<in> dom (sockets st)"
        "r = room_name q q' \<or> r = room_name q' q"
      unfolding registry_ok_def by blast
    have "valid_sid q" "valid_sid q'" using assms(1) q' by (auto simp: ids_ok_def)
    with p(4) q'(3) vk vp show ?thesis
      by (auto simp: room_name_inj)
  qed
  show thesis using that [OF p(1) vk vp p(3) p(5) p(4)] uniq by blast
qed

lemma find_partner_Some:
  assumes "distinct (map fst ar)" "map_of ar p = Some r" "p \<noteq> s"
    and uniq: "\<And>q. map_of ar q = Some r \<Longrightarrow> q = s \<or> q = p"
  shows "find_partner ar r s = Some p"
proof -
  have "(p, r) \<in> set ar" using assms(2) by (rule map_of_SomeD)
  then have "\<exists>x \<in> set ar. (\<lambda>(i, room). room = r \<and> i \<noteq> s) x"
    using assms(3) by auto
  then obtain x where x: "find (\<lambda>(i, room). room = r \<and> i \<noteq> s) ar = Some x"
    by (cases "find (\<lambda>(i, room). room = r \<and> i \<noteq> s) ar") (auto simp: find_None_iff)
  then have "x \<in> set ar" "snd x = r" "fst x \<noteq> s"
    by (auto simp: find_Some_iff in_set_conv_nth)
  then have "map_of ar (fst x) = Some r"
    using assms(1) by (metis map_of_eq_Some_iff prod.collapse)
  with uniq \<open>fst x \<noteq> s\<close> have "fst x = p" by blast
  with x show ?thesis by (simp add: find_partner_def)
qed

lemma find_partner_None:
  "distinct (map fst ar) \<Longrightarrow> \<forall>q. map_of ar q \<noteq> Some r \<Longrightarrow> find_partner ar r s = None"
  by (auto simp: find_partner_def find_None_iff)

subsection \<open>What each handler does to the state\<close>

lemma on_connection_fields:
  "sockets (on_connection s st) =
     (sockets st)(s \<mapsto> \<lparr>data_username = JUndefined, data_profilePic = JUndefined\<rparr>)"
  "rooms (on_connection s st) =
     (if s \<in> set (rooms st s) then rooms st else (rooms st)(s := rooms st s @ [s]))"
  "waitingQueue (on_connection s st) = waitingQueue st"
  "activeRooms (on_connection s st) = activeRooms st"
  "publicKeys (on_connection s st) = publicKeys st"
  "messageCounts (on_connection s st) = messageCounts st"
  "sids (on_connection s st) = (if s \<in> set (sids st) then sids st else sids st @ [s])"
  by (simp_all add: on_connection_def socket_join_def)

lemma on_join_queue_ignored:
  "map_of (activeRooms st) s \<noteq> None \<or> s \<in> set (waitingQueue st) \<Longrightarrow>
   on_join_queue s data st = (st\<lparr>sockets := (sockets st)(s \<mapsto> stored_data data)\<rparr>, [])"
  by (auto simp: on_join_queue_def stored_data_def Let_def split: option.splits)

lemma on_join_queue_enqueue:
  "map_of (activeRooms st) s = None \<Longrightarrow> waitingQueue st = [] \<Longrightarrow>
   on_join_queue s data st =
     (st\<lparr>sockets := (sockets st)(s \<mapsto> stored_data data), waitingQueue := [s]\<rparr>, [])"
  by (auto simp: on_join_queue_def stored_data_def Let_def split: option.splits)

lemma on_join_queue_pair:
  assumes "map_of (activeRooms st) s = None" "s \<notin> set (waitingQueue st)"
    "waitingQueue st = p # rest"
  shows "sockets (fst (on_join_queue s data st)) = (sockets st)(s \<mapsto> stored_data data)"
    and "rooms (fst (on_join_queue s data st)) =
           rooms (socket_join p (room_name s p) (socket_join s (room_name s p) st))"
    and "waitingQueue (fst (on_join_queue s data st)) = rest"
    and "activeRooms (fst (on_join_queue s data st)) =
           AList.update p (room_name s p) (AList.update s (room_name s p) (activeRooms st))"
    and "publicKeys (fst (on_join_queue s data st)) = publicKeys st"
    and "messageCounts (fst (on_join_queue s data st)) = messageCounts st"
    and "snd (on_join_queue s data st) =
           io_to (fst (on_join_queue s data st)) s
             (ChatStart (room_name s p) (data_username (data_of st p)) (data_profilePic (data_of st p)))
           @ io_to (fst (on_join_queue s data st)) p
             (ChatStart (room_name s p) (data_username (stored_data data))
                (data_profilePic (stored_data data)))"
    and "sids (fst (on_join_queue s data st)) =
           sids (socket_join p (room_name s p) (socket_join s (room_name s p) st))"
  using assms
  by (auto simp: on_join_queue_def stored_data_def Let_def socket_join_def data_of_def io_to_def
           split: option.splits)

lemma rooms_socket_join:
  "rooms (socket_join s r st) r' =
     (if r' = r \<and> s \<notin> set (rooms st r) then rooms st r @ [s] else rooms st r')"
  by (simp add: socket_join_def)

lemma on_skip_unpaired:
  "map_of (activeRooms st) s = None \<Longrightarrow>
   on_skip s st = (st\<lparr>waitingQueue := filter (\<lambda>x. x \<noteq> s) (waitingQueue st)\<rparr>, [])"
  by (simp add: on_skip_def)

lemma on_skip_paired:
  assumes "map_of (activeRooms st) s = Some r" "r \<noteq> []"
    "find_partner (activeRooms st) r s = Some p" "p \<noteq> []"
  shows "on_skip s st =
     (st\<lparr>rooms := (rooms st)(r := filter (\<lambda>m. m \<noteq> s) (rooms st r)),
         activeRooms := AList.delete p (AList.delete s (activeRooms st)),
         waitingQueue := filter (\<lambda>x. x \<noteq> s) (waitingQueue st)\<rparr>,
      socket_to st s r PartnerDisconnected)"
  using assms by (simp add: on_skip_def Let_def socket_leave_def)

lemma on_disconnect_unpaired:
  "map_of (activeRooms st) s = None \<Longrightarrow>
   on_disconnect s st =
     (st\<lparr>rooms := (\<lambda>r. filter (\<lambda>m. m \<noteq> s) (rooms st r)),
         sids := filter (\<lambda>m. m \<noteq> s) (sids st),
         sockets := (sockets st)(s := None),
         waitingQueue := filter (\<lambda>x. x \<noteq> s) (waitingQueue st),
         publicKeys := (publicKeys st)(s := None),
         messageCounts := (messageCounts st)(s := None)\<rparr>, [])"
  by (simp add: on_disconnect_def leave_all_def Let_def)

lemma on_disconnect_paired:
  assumes "map_of (activeRooms st) s = Some r" "r \<noteq> []"
    "find_partner (activeRooms st) r s = Some p" "p \<noteq> []"
  shows "on_disconnect s st =
     (st\<lparr>rooms := (\<lambda>r. filter (\<lambda>m. m \<noteq> s) (rooms st r)),
         sids := filter (\<lambda>m. m \<noteq> s) (sids st),
         sockets := (sockets st)(s := None),
         waitingQueue := filter (\<lambda>x. x \<noteq> s) (waitingQueue st),
         messageCounts := (messageCounts st)(s := None),
         activeRooms := AList.delete p (AList.delete s (activeRooms st)),
         publicKeys := (publicKeys st)(s := None, p := None)\<rparr>,
      map (\<lambda>m. (m, PartnerDisconnected)) (filter (\<lambda>m. m \<noteq> s) (rooms st r)))"
  using assms by (simp add: on_disconnect_def leave_all_def Let_def socket_to_def)

lemma relay_fields:
  assumes "handle now stamp s ev st = Inr (st', out)"
    and "ev \<noteq> Skip" "ev \<noteq> Disconnect" "\<forall>d. ev \<noteq> JoinQueue d"
  shows "sockets st' = sockets st \<and> rooms st' = rooms st \<and> waitingQueue st' = waitingQueue st
         \<and> activeRooms st' = activeRooms st"
  using assms
  by (cases ev)
     (auto simp: on_exchange_keys_def on_send_message_def on_typing_def on_stop_typing_def
         on_edit_message_def on_delete_message_def Let_def split_beta
       split: option.splits jsval.splits if_splits)

subsection \<open>The invariants hold in every reachable state\<close>

lemmas inv_defs = server_inv_def ids_ok_def queue_ok_def registry_ok_def rooms_ok_def

lemma server_inv_init: "server_inv init"
  by (simp add: inv_defs init_def)

lemma inv_cong:
  assumes "server_inv st" "dom (sockets st') = dom (sockets st)" "rooms st' = rooms st"
    "waitingQueue st' = waitingQueue st" "activeRooms st' = activeRooms st"
  shows "server_inv st'"
  using assms by (simp add: inv_defs del: map_of_eq_Some_iff)

lemma inv_connection:
  assumes inv: "server_inv st" and v: "valid_sid s" and new: "sockets st s = None"
  shows "server_inv (on_connection s st)"
proof -
  let ?st = "on_connection s st"
  from inv have i: "ids_ok st" and q: "queue_ok st" and g: "registry_ok st" and r: "rooms_ok st"
    by (simp_all add: server_inv_def)
  have nd: "s \<notin> dom (sockets st)" using new by (simp add: domIff)
  have empty: "rooms st s = []" using r v nd by (simp add: rooms_ok_def)
  have rs: "rooms ?st = (rooms st)(s := [s])"
    using empty by (simp add: on_connection_fields)
  have ds: "dom (sockets ?st) = insert s (dom (sockets st))"
    by (simp add: on_connection_fields)
  have "ids_ok ?st" using i v by (simp add: ids_ok_def ds)
  moreover have "queue_ok ?st"
    using q by (simp add: queue_ok_def ds on_connection_fields)
  moreover have "registry_ok ?st"
    unfolding registry_ok_def
  proof (intro conjI allI impI)
    show "distinct (map fst (activeRooms ?st))"
      using g by (simp add: registry_ok_def on_connection_fields)
  next
    fix k x assume "map_of (activeRooms ?st) k = Some x"
    then have m: "map_of (activeRooms st) k = Some x" by (simp add: on_connection_fields)
    with g obtain p where "k \<in> dom (sockets st)" "p \<noteq> k" "p \<in> dom (sockets st)"
        "x = room_name k p \<or> x = room_name p k" "map_of (activeRooms st) p = Some x"
      unfolding registry_ok_def by blast
    then have "k \<in> dom (sockets ?st)"
      and "p \<noteq> k \<and> p \<in> dom (sockets ?st) \<and> (x = room_name k p \<or> x = room_name p k) \<and>
              map_of (activeRooms ?st) p = Some x"
      by (simp_all add: ds on_connection_fields del: map_of_eq_Some_iff)
    then show "k \<in> dom (sockets ?st)"
      and "\<exists>p. p \<noteq> k \<and> p \<in> dom (sockets ?st) \<and> (x = room_name k p \<or> x = room_name p k) \<and>
              map_of (activeRooms ?st) p = Some x"
      by blast+
  qed
  moreover have "rooms_ok ?st"
    unfolding rooms_ok_def
  proof (intro conjI allI impI)
    fix t assume "valid_sid t"
    then show "rooms ?st t = (if t \<in> dom (sockets ?st) then [t] else [])"
      using r by (simp add: rs ds rooms_ok_def)
  next
    fix x show "distinct (rooms ?st x)"
      using r by (simp add: rs rooms_ok_def)
    show "\<forall>m \<in> set (rooms ?st x). m \<in> dom (sockets ?st)"
      using r by (simp add: rs ds rooms_ok_def)
  next
    fix a b assume "valid_sid a \<and> valid_sid b"
    then show "set (rooms ?st (room_name a b)) \<subseteq> {a, b}"
      using r v room_name_not_sid [of a b s] by (simp add: rs rooms_ok_def)
  next
    fix k x assume "map_of (activeRooms ?st) k = Some x"
    then have m: "map_of (activeRooms st) k = Some x" by (simp add: on_connection_fields)
    then have "k \<in> set (rooms st x)" using r by (simp add: rooms_ok_def)
    then show "k \<in> set (rooms ?st x)" using empty by (auto simp: rs)
  qed
  ultimately show ?thesis by (simp add: server_inv_def)
qed

lemma inv_enqueue:
  assumes inv: "server_inv st" and c: "s \<in> dom (sockets st)"
    and free: "map_of (activeRooms st) s = None" and e: "waitingQueue st = []"
  shows "server_inv (st\<lparr>sockets := (sockets st)(s \<mapsto> d), waitingQueue := [s]\<rparr>)"
  using assms by (simp add: inv_defs insert_absorb del: map_of_eq_Some_iff)

lemma inv_dequeue:
  assumes inv: "server_inv st"
  shows "server_inv (st\<lparr>waitingQueue := filter (\<lambda>x. x \<noteq> s) (waitingQueue st)\<rparr>)"
  using assms by (simp add: inv_defs del: map_of_eq_Some_iff)

lemma rooms_after_pair:
  fixes st s p
  defines "st2 \<equiv> socket_join p (room_name s p) (socket_join s (room_name s p) st)"
  shows "x \<noteq> room_name s p \<Longrightarrow> rooms st2 x = rooms st x"
    and "set (rooms st2 (room_name s p)) = insert p (insert s (set (rooms st (room_name s p))))"
    and "distinct (rooms st (room_name s p)) \<Longrightarrow> distinct (rooms st2 (room_name s p))"
  by (auto simp: st2_def rooms_socket_join)

lemma inv_pair:
  assumes inv: "server_inv st" and c: "s \<in> dom (sockets st)"
    and free: "map_of (activeRooms st) s = None" and nq: "s \<notin> set (waitingQueue st)"
    and qu: "waitingQueue st = p # rest"
  shows "server_inv (fst (on_join_queue s data st))"
proof -
  let ?st = "fst (on_join_queue s data st)"
  let ?r = "room_name s p"
  from inv have i: "ids_ok st" and q: "queue_ok st" and g: "registry_ok st" and r: "rooms_ok st"
    by (simp_all add: server_inv_def)
  have pc: "p \<in> dom (sockets st)" and pfree: "map_of (activeRooms st) p = None"
    and ps: "p \<noteq> s" and prest: "p \<notin> set rest" and drest: "distinct rest"
    using q qu nq by (auto simp: queue_ok_def)
  have vs: "valid_sid s" and vp: "valid_sid p" using i c pc by (auto simp: ids_ok_def)
  note f = on_join_queue_pair [OF free nq qu, of data]
  have ds: "dom (sockets ?st) = dom (sockets st)"
    using c by (simp add: f insert_absorb)
  have ar: "map_of (activeRooms ?st) = (map_of (activeRooms st))(s \<mapsto> ?r, p \<mapsto> ?r)"
    by (simp add: f update_conv')
  have ro: "\<And>x. x \<noteq> ?r \<Longrightarrow> rooms ?st x = rooms st x"
    and rs: "set (rooms ?st ?r) = insert p (insert s (set (rooms st ?r)))"
    and rd: "distinct (rooms ?st ?r)"
    using r by (simp_all add: f rooms_after_pair rooms_ok_def)
  have "ids_ok ?st" using i by (simp add: ids_ok_def ds)
  moreover have "queue_ok ?st"
    unfolding queue_ok_def
  proof (intro conjI ballI)
    show "distinct (waitingQueue ?st)" using drest by (simp add: f)
  next
    fix x assume "x \<in> set (waitingQueue ?st)"
    then have x: "x \<in> set rest" by (simp add: f)
    then have "x \<noteq> p" "x \<noteq> s" "x \<in> dom (sockets st)" "map_of (activeRooms st) x = None"
      using prest nq qu q by (auto simp: queue_ok_def)
    then show "x \<in> dom (sockets ?st)" "map_of (activeRooms ?st) x = None"
      by (simp_all add: ds ar)
  qed
  moreover have "registry_ok ?st"
    unfolding registry_ok_def
  proof (intro conjI allI impI)
    show "distinct (map fst (activeRooms ?st))"
      using g by (simp add: registry_ok_def f distinct_update)
  next
    fix k x assume m: "map_of (activeRooms ?st) k = Some x"
    have "k \<in> dom (sockets st) \<and>
       (\<exists>p'. p' \<noteq> k \<and> p' \<in> dom (sockets st) \<and> (x = room_name k p' \<or> x = room_name p' k) \<and>
              map_of (activeRooms ?st) p' = Some x)"
    proof (cases "k = s \<or> k = p")
      case True
      then have "x = ?r" using m ps by (auto simp: ar)
      with True show ?thesis using c pc ps by (auto simp: ar)
    next
      case False
      then have old: "map_of (activeRooms st) k = Some x" using m by (simp add: ar)
      with g obtain p' where p': "k \<in> dom (sockets st)" "p' \<noteq> k" "p' \<in> dom (sockets st)"
          "x = room_name k p' \<or> x = room_name p' k" "map_of (activeRooms st) p' = Some x"
        unfolding registry_ok_def by blast
      then have "p' \<noteq> s" "p' \<noteq> p" using free pfree by auto
      then have "map_of (activeRooms ?st) p' = Some x" using p'(5) by (simp add: ar)
      with p' show ?thesis by blast
    qed
    then show "k \<in> dom (sockets ?st)"
      and "\<exists>p. p \<noteq> k \<and> p \<in> dom (sockets ?st) \<and> (x = room_name k p \<or> x = room_name p k) \<and>
              map_of (activeRooms ?st) p = Some x"
      by (simp_all add: ds)
  qed
  moreover have "rooms_ok ?st"
    unfolding rooms_ok_def
  proof (intro conjI allI impI)
    fix t assume t: "valid_sid t"
    then have "t \<noteq> ?r" using room_name_not_sid [OF vs vp t] by auto
    then show "rooms ?st t = (if t \<in> dom (sockets ?st) then [t] else [])"
      using r t by (simp add: ro ds rooms_ok_def)
  next
    fix x show "distinct (rooms ?st x)"
      using r rd by (cases "x = ?r") (simp_all add: ro rooms_ok_def)
    show "\<forall>m \<in> set (rooms ?st x). m \<in> dom (sockets ?st)"
      using r c pc by (cases "x = ?r") (auto simp: ro rs ds rooms_ok_def)
  next
    fix a b assume ab: "valid_sid a \<and> valid_sid b"
    show "set (rooms ?st (room_name a b)) \<subseteq> {a, b}"
    proof (cases "room_name a b = ?r")
      case True
      then have "a = s" "b = p" using ab vs by (simp_all add: room_name_inj)
      moreover have "set (rooms st ?r) \<subseteq> {s, p}" using r vs vp by (simp add: rooms_ok_def)
      ultimately show ?thesis using rs by auto
    next
      case False
      then show ?thesis using r ab by (simp add: ro rooms_ok_def)
    qed
  next
    fix k x assume m: "map_of (activeRooms ?st) k = Some x"
    show "k \<in> set (rooms ?st x)"
    proof (cases "k = s \<or> k = p")
      case True
      then have "x = ?r" using m ps by (auto simp: ar)
      with True show ?thesis by (auto simp: rs)
    next
      case False
      then have "map_of (activeRooms st) k = Some x" using m by (simp add: ar)
      then have "k \<in> set (rooms st x)" using r by (simp add: rooms_ok_def)
      then show ?thesis by (cases "x = ?r") (simp_all add: ro rs)
    qed
  qed
  ultimately show ?thesis by (simp add: server_inv_def)
qed

lemma inv_join_queue:
  assumes inv: "server_inv st" and c: "s \<in> dom (sockets st)"
  shows "server_inv (fst (on_join_queue s data st))"
proof (cases "map_of (activeRooms st) s \<noteq> None \<or> s \<in> set (waitingQueue st)")
  case True
  have "server_inv (st\<lparr>sockets := (sockets st)(s \<mapsto> stored_data data)\<rparr>)"
    using inv c by (intro inv_cong [OF inv]) (simp_all add: insert_absorb)
  then show ?thesis using True by (simp add: on_join_queue_ignored)
next
  case False
  then have free: "map_of (activeRooms st) s = None" and nq: "s \<notin> set (waitingQueue st)"
    by simp_all
  show ?thesis
  proof (cases "waitingQueue st")
    case Nil
    then show ?thesis
      using inv_enqueue [OF inv c free Nil] free by (simp add: on_join_queue_enqueue)
  next
    case (Cons p rest)
    then show ?thesis using inv c free nq by (rule inv_pair [rotated 4])
  qed
qed

lemma paired_facts:
  assumes inv: "server_inv st" and m: "map_of (activeRooms st) s = Some r"
  obtains p where "p \<noteq> s" "valid_sid s" "valid_sid p" "p \<in> dom (sockets st)"
    "map_of (activeRooms st) p = Some r"
    "r = room_name s p \<or> r = room_name p s"
    "\<And>q. map_of (activeRooms st) q = Some r \<Longrightarrow> q = s \<or> q = p"
    "find_partner (activeRooms st) r s = Some p" "r \<noteq> []" "p \<noteq> []"
proof -
  from inv have i: "ids_ok st" and g: "registry_ok st" by (simp_all add: server_inv_def)
  from registry_room [OF i g m] obtain p where p: "p \<noteq> s" "valid_sid s" "valid_sid p"
      "p \<in> dom (sockets st)" "map_of (activeRooms st) p = Some r"
      "r = room_name s p \<or> r = room_name p s"
      "\<And>q. map_of (activeRooms st) q = Some r \<Longrightarrow> q = s \<or> q = p"
    by blast
  have d: "distinct (map fst (activeRooms st))" using g by (simp add: registry_ok_def)
  have fp: "find_partner (activeRooms st) r s = Some p"
    using d p(5) p(1) p(7) by (rule find_partner_Some)
  have "r \<noteq> []" using p(6) by (auto simp: room_name_def)
  moreover have "p \<noteq> []" using p(3) by (rule valid_sid_nonempty)
  ultimately show thesis using that p fp by blast
qed

lemma inv_skip:
  assumes inv: "server_inv st"
  shows "server_inv (fst (on_skip s st))"
proof (cases "map_of (activeRooms st) s")
  case None
  then show ?thesis using inv_dequeue [OF inv] by (simp add: on_skip_unpaired)
next
  case (Some r)
  from paired_facts [OF inv Some] obtain p where p: "p \<noteq> s" "valid_sid s" "valid_sid p"
      "p \<in> dom (sockets st)" "map_of (activeRooms st) p = Some r"
      "r = room_name s p \<or> r = room_name p s"
      "\<And>q. map_of (activeRooms st) q = Some r \<Longrightarrow> q = s \<or> q = p"
      "find_partner (activeRooms st) r s = Some p" "r \<noteq> []" "p \<noteq> []"
    by blast
  define st' where "st' = fst (on_skip s st)"
  have eq: "st' = st\<lparr>rooms := (rooms st)(r := filter (\<lambda>m. m \<noteq> s) (rooms st r)),
         activeRooms := AList.delete p (AList.delete s (activeRooms st)),
         waitingQueue := filter (\<lambda>x. x \<noteq> s) (waitingQueue st)\<rparr>"
    using on_skip_paired [OF Some p(9) p(8) p(10)] by (simp add: st'_def)
  from inv have i: "ids_ok st" and q: "queue_ok st" and g: "registry_ok st" and ro: "rooms_ok st"
    by (simp_all add: server_inv_def)
  have ar: "map_of (activeRooms st') = (map_of (activeRooms st))(s := None, p := None)"
    by (simp add: eq delete_conv')
  have ad: "distinct (map fst (activeRooms st'))"
    using g by (simp add: eq registry_ok_def distinct_delete)
  have so: "sockets st' = sockets st" by (simp add: eq)
  have rr: "rooms st' = (rooms st)(r := filter (\<lambda>m. m \<noteq> s) (rooms st r))" by (simp add: eq)
  have wq: "waitingQueue st' = filter (\<lambda>x. x \<noteq> s) (waitingQueue st)" by (simp add: eq)
  have rnot: "valid_sid t \<Longrightarrow> t \<noteq> r" for t
    using p(6) room_name_not_sid [OF p(2) p(3)] room_name_not_sid [OF p(3) p(2)] by auto
  have other: "x \<noteq> r" if "map_of (activeRooms st') k = Some x" for k x
  proof
    assume "x = r"
    with that have "k \<noteq> s" "k \<noteq> p" "map_of (activeRooms st) k = Some r"
      by (auto simp: ar split: if_splits)
    with p(7) show False by blast
  qed
  have "ids_ok st'" using i by (simp add: ids_ok_def so)
  moreover have "queue_ok st'"
    using q by (simp add: queue_ok_def ar so wq)
  moreover have "registry_ok st'"
    unfolding registry_ok_def
  proof (intro conjI allI impI)
    show "distinct (map fst (activeRooms st'))" by (rule ad)
  next
    fix k x assume m: "map_of (activeRooms st') k = Some x"
    then have old: "map_of (activeRooms st) k = Some x"
      by (auto simp: ar split: if_splits)
    from other [OF m] have xr: "x \<noteq> r" .
    from g old obtain p' where p': "k \<in> dom (sockets st)" "p' \<noteq> k" "p' \<in> dom (sockets st)"
        "x = room_name k p' \<or> x = room_name p' k" "map_of (activeRooms st) p' = Some x"
      unfolding registry_ok_def by blast
    have "p' \<noteq> s" "p' \<noteq> p" using p'(5) xr Some p(5) by auto
    then have "map_of (activeRooms st') p' = Some x" using p'(5) by (simp add: ar)
    with p' show "k \<in> dom (sockets st')"
      and "\<exists>p. p \<noteq> k \<and> p \<in> dom (sockets st') \<and> (x = room_name k p \<or> x = room_name p k) \<and>
              map_of (activeRooms st') p = Some x"
      unfolding so by blast+
  qed
  moreover have "rooms_ok st'"
    unfolding rooms_ok_def
  proof (intro conjI allI impI)
    fix t assume t: "valid_sid t"
    then show "rooms st' t = (if t \<in> dom (sockets st') then [t] else [])"
      using ro rnot [OF t] by (simp add: rooms_ok_def rr so)
  next
    fix x show "distinct (rooms st' x)"
      using ro by (simp add: rooms_ok_def rr)
    show "\<forall>m \<in> set (rooms st' x). m \<in> dom (sockets st')"
      using ro by (auto simp: rooms_ok_def rr so)
  next
    fix a b assume ab: "valid_sid a \<and> valid_sid b"
    then have "set (rooms st (room_name a b)) \<subseteq> {a, b}" using ro by (simp add: rooms_ok_def)
    then show "set (rooms st' (room_name a b)) \<subseteq> {a, b}" by (auto simp: rr)
  next
    fix k x assume m: "map_of (activeRooms st') k = Some x"
    then have old: "map_of (activeRooms st) k = Some x"
      by (auto simp: ar split: if_splits)
    then have "k \<in> set (rooms st x)" using ro by (simp add: rooms_ok_def)
    then show "k \<in> set (rooms st' x)" using other [OF m] by (simp add: rr)
  qed
  ultimately show ?thesis by (simp add: server_inv_def st'_def)
qed

lemma inv_remove:
  assumes inv: "server_inv st" and free: "map_of (activeRooms st) s = None"
    and nq: "s \<notin> set (waitingQueue st)"
    and f: "dom (sockets st') = dom (sockets st) - {s}"
      "rooms st' = (\<lambda>r. filter (\<lambda>m. m \<noteq> s) (rooms st r))"
      "waitingQueue st' = waitingQueue st" "activeRooms st' = activeRooms st"
  shows "server_inv st'"
proof -
  from inv have i: "ids_ok st" and q: "queue_ok st" and g: "registry_ok st" and ro: "rooms_ok st"
    by (simp_all add: server_inv_def)
  have "ids_ok st'" using i by (simp add: ids_ok_def f)
  moreover have "queue_ok st'"
    using q nq by (auto simp: queue_ok_def f)
  moreover have "registry_ok st'"
    unfolding registry_ok_def
  proof (intro conjI allI impI)
    show "distinct (map fst (activeRooms st'))" using g by (simp add: registry_ok_def f)
  next
    fix k x assume "map_of (activeRooms st') k = Some x"
    then have old: "map_of (activeRooms st) k = Some x" by (simp add: f)
    from g old obtain p' where p': "k \<in> dom (sockets st)" "p' \<noteq> k" "p' \<in> dom (sockets st)"
        "x = room_name k p' \<or> x = room_name p' k" "map_of (activeRooms st) p' = Some x"
      unfolding registry_ok_def by blast
    have "k \<noteq> s" "p' \<noteq> s" using old p'(5) free by auto
    with p' show "k \<in> dom (sockets st')"
      and "\<exists>p. p \<noteq> k \<and> p \<in> dom (sockets st') \<and> (x = room_name k p \<or> x = room_name p k) \<and>
              map_of (activeRooms st') p = Some x"
      by (auto simp: f)
  qed
  moreover have "rooms_ok st'"
    unfolding rooms_ok_def
  proof (intro conjI allI impI)
    fix t assume t: "valid_sid t"
    then show "rooms st' t = (if t \<in> dom (sockets st') then [t] else [])"
      using ro by (simp add: rooms_ok_def f)
  next
    fix x show "distinct (rooms st' x)"
      using ro by (simp add: rooms_ok_def f)
    show "\<forall>m \<in> set (rooms st' x). m \<in> dom (sockets st')"
      using ro by (auto simp: rooms_ok_def f)
  next
    fix a b assume ab: "valid_sid a \<and> valid_sid b"
    then have "set (rooms st (room_name a b)) \<subseteq> {a, b}" using ro by (simp add: rooms_ok_def)
    then show "set (rooms st' (room_name a b)) \<subseteq> {a, b}" by (auto simp: f)
  next
    fix k x assume "map_of (activeRooms st') k = Some x"
    then have old: "map_of (activeRooms st) k = Some x" by (simp add: f)
    then have "k \<in> set (rooms st x)" using ro by (simp add: rooms_ok_def)
    moreover have "k \<noteq> s" using old free by auto
    ultimately show "k \<in> set (rooms st' x)" by (simp add: f)
  qed
  ultimately show ?thesis by (simp add: server_inv_def)
qed

lemma on_disconnect_as_skip:
  "activeRooms (fst (on_disconnect s st)) = activeRooms (fst (on_skip s st))"
  "waitingQueue (fst (on_disconnect s st)) = waitingQueue (fst (on_skip s st))"
  "rooms (fst (on_disconnect s st)) = (\<lambda>r. filter (\<lambda>m. m \<noteq> s) (rooms (fst (on_skip s st)) r))"
  "sockets (fst (on_disconnect s st)) = (sockets (fst (on_skip s st)))(s := None)"
  by (auto simp: on_disconnect_def on_skip_def Let_def leave_all_def socket_leave_def fun_eq_iff
        split: option.splits)

lemma on_skip_dequeues: "s \<notin> set (waitingQueue (fst (on_skip s st)))"
  by (auto simp: on_skip_def Let_def split: option.splits)

lemma on_skip_clears:
  assumes inv: "server_inv st"
  shows "map_of (activeRooms (fst (on_skip s st))) s = None"
proof (cases "map_of (activeRooms st) s")
  case None
  then show ?thesis by (simp add: on_skip_unpaired)
next
  case (Some r)
  from paired_facts [OF inv Some] obtain p where
      "find_partner (activeRooms st) r s = Some p" "r \<noteq> []" "p \<noteq> []"
    by blast
  then show ?thesis using on_skip_paired [OF Some, of p] by (simp add: delete_conv')
qed

lemma inv_disconnect:
  assumes inv: "server_inv st"
  shows "server_inv (fst (on_disconnect s st))"
  using inv_skip [OF inv, of s] on_skip_clears [OF inv, of s] on_skip_dequeues [of s st]
  by (rule inv_remove) (simp_all add: on_disconnect_as_skip)

lemma reachable_inv: "reachable st \<Longrightarrow> server_inv st"
proof (induction rule: reachable.induct)
  case start
  show ?case by (rule server_inv_init)
next
  case (connect st s)
  then show ?case by (simp add: inv_connection)
next
  case (event st s now stamp ev st' out)
  have c: "s \<in> dom (sockets st)" using event.hyps(2) by (simp add: domIff)
  show ?case
  proof (cases "ev = Skip \<or> ev = Disconnect \<or> (\<exists>d. ev = JoinQueue d)")
    case True
    then consider "ev = Skip" | "ev = Disconnect" | d where "ev = JoinQueue d" by blast
    then show ?thesis
    proof cases
      case 1
      then have "st' = fst (on_skip s st)" using event.hyps(3) by simp
      then show ?thesis using event.IH by (simp add: inv_skip)
    next
      case 2
      then have "st' = fst (on_disconnect s st)" using event.hyps(3) by simp
      then show ?thesis using event.IH by (simp add: inv_disconnect)
    next
      case 3
      then have "st' = fst (on_join_queue s d st)" using event.hyps(3) by simp
      then show ?thesis using event.IH c by (simp add: inv_join_queue)
    qed
  next
    case False
    then have "sockets st' = sockets st \<and> rooms st' = rooms st \<and> waitingQueue st' = waitingQueue st
         \<and> activeRooms st' = activeRooms st"
      using relay_fields [OF event.hyps(3)] by blast
    then show ?thesis using event.IH by (intro inv_cong [OF event.IH]) simp_all
  qed
qed

subsection \<open>The example run\<close>

lemma sid_valid: "valid_sid sidA" "valid_sid sidB" "valid_sid sidC"
  by (simp_all add: valid_sid_def sidA_def sidB_def sidC_def)

lemma roomBA_not_sid:
  "roomBA \<noteq> sidA" "roomBA \<noteq> sidB" "roomBA \<noteq> sidC"
  "sidA \<noteq> roomBA" "sidB \<noteq> roomBA" "sidC \<noteq> roomBA" "roomBA \<noteq> []"
  using room_name_not_sid [OF sid_valid(2) sid_valid(1) sid_valid(1)]
    room_name_not_sid [OF sid_valid(2) sid_valid(1) sid_valid(2)]
    room_name_not_sid [OF sid_valid(2) sid_valid(1) sid_valid(3)]
    room_name_nonempty [of sidB sidA]
  by (auto simp: roomBA_def)

lemma sanitize_demo:
  "sanitizeUsername (JStr ''Alice'') = ''Alice''" "sanitizeUsername (JStr ''Bob'') = ''Bob''"
  by (simp_all add: validator_escape_def replace_all_def js_trim_def js_whitespace_def)

lemma st_lobby_eq:
  "st_lobby =
     \<lparr>sockets = [sidA \<mapsto> \<lparr>data_username = JUndefined, data_profilePic = JUndefined\<rparr>,
                 sidB \<mapsto> \<lparr>data_username = JUndefined, data_profilePic = JUndefined\<rparr>,
                 sidC \<mapsto> \<lparr>data_username = JUndefined, data_profilePic = JUndefined\<rparr>],
      rooms = (\<lambda>_. [])(sidA := [sidA], sidB := [sidB], sidC := [sidC]),
      sids = [sidA, sidB, sidC],
      waitingQueue = [], activeRooms = [], publicKeys = Map.empty, messageCounts = Map.empty\<rparr>"
  by (simp add: st_lobby_def on_connection_def socket_join_def init_def sid_distinct)

lemma st_waiting_eq:
  "st_waiting =
     \<lparr>sockets = [sidA \<mapsto> \<lparr>data_username = JStr ''Alice'', data_profilePic = JObj ''alice.png''\<rparr>,
                 sidB \<mapsto> \<lparr>data_username = JUndefined, data_profilePic = JUndefined\<rparr>,
                 sidC \<mapsto> \<lparr>data_username = JUndefined, data_profilePic = JUndefined\<rparr>],
      rooms = (\<lambda>_. [])(sidA := [sidA], sidB := [sidB], sidC := [sidC]),
      sids = [sidA, sidB, sidC],
      waitingQueue = [sidA], activeRooms = [], publicKeys = Map.empty, messageCounts = Map.empty\<rparr>"
proof -
  have "on_join_queue sidA (Some joinA) st_lobby =
     (st_lobby\<lparr>sockets := (sockets st_lobby)(sidA \<mapsto> stored_data (Some joinA)),
               waitingQueue := [sidA]\<rparr>, [])"
    by (rule on_join_queue_enqueue) (simp_all add: st_lobby_eq)
  moreover have "stored_data (Some joinA) =
      \<lparr>data_username = JStr ''Alice'', data_profilePic = JObj ''alice.png''\<rparr>"
    by (simp add: stored_data_def joinA_def sanitize_demo del: sanitizeUsername.simps)
  ultimately show ?thesis
    by (simp add: st_waiting_def st_lobby_eq sid_distinct fun_eq_iff)
qed

lemma st_paired_eq:
  "st_paired =
     \<lparr>sockets = [sidA \<mapsto> \<lparr>data_username = JStr ''Alice'', data_profilePic = JObj ''alice.png''\<rparr>,
                 sidB \<mapsto> \<lparr>data_username = JStr ''Bob'', data_profilePic = JNull\<rparr>,
                 sidC \<mapsto> \<lparr>data_username = JUndefined, data_profilePic = JUndefined\<rparr>],
      rooms = (\<lambda>_. [])(sidA := [sidA], sidB := [sidB], sidC := [sidC], roomBA := [sidB, sidA]),
      sids = [sidA, sidB, sidC],
      waitingQueue = [], activeRooms = [(sidB, roomBA), (sidA, roomBA)],
      publicKeys = Map.empty, messageCounts = Map.empty\<rparr>"
proof -
  have free: "map_of (activeRooms st_waiting) sidB = None"
    and nq: "sidB \<notin> set (waitingQueue st_waiting)"
    and qu: "waitingQueue st_waiting = sidA # []"
    by (simp_all add: st_waiting_eq sid_distinct)
  note f = on_join_queue_pair [OF free nq qu, of "Some joinB", folded st_paired_def roomBA_def]
  have sd: "stored_data (Some joinB) = \<lparr>data_username = JStr ''Bob'', data_profilePic = JNull\<rparr>"
    by (simp add: stored_data_def joinB_def sanitize_demo del: sanitizeUsername.simps)
  show ?thesis
  proof (rule state.equality)
    show "sockets st_paired = sockets \<lparr>sockets = [sidA \<mapsto> \<lparr>data_username = JStr ''Alice'', data_profilePic = JObj ''alice.png''\<rparr>,
                 sidB \<mapsto> \<lparr>data_username = JStr ''Bob'', data_profilePic = JNull\<rparr>,
                 sidC \<mapsto> \<lparr>data_username = JUndefined, data_profilePic = JUndefined\<rparr>],
      rooms = (\<lambda>_. [])(sidA := [sidA], sidB := [sidB], sidC := [sidC], roomBA := [sidB, sidA]),
      sids = [sidA, sidB, sidC],
      waitingQueue = [], activeRooms = [(sidB, roomBA), (sidA, roomBA)],
      publicKeys = Map.empty, messageCounts = Map.empty\<rparr>"
      by (simp add: f(1) sd st_waiting_eq sid_distinct fun_eq_iff)
    show "rooms st_paired = rooms \<lparr>sockets = [sidA \<mapsto> \<lparr>data_username = JStr ''Alice'', data_profilePic = JObj ''alice.png''\<rparr>,
                 sidB \<mapsto> \<lparr>data_username = JStr ''Bob'', data_profilePic = JNull\<rparr>,
                 sidC \<mapsto> \<lparr>data_username = JUndefined, data_profilePic = JUndefined\<rparr>],
      rooms = (\<lambda>_. [])(sidA := [sidA], sidB := [sidB], sidC := [sidC], roomBA := [sidB, sidA]),
      sids = [sidA, sidB, sidC],
      waitingQueue = [], activeRooms = [(sidB, roomBA), (sidA, roomBA)],
      publicKeys = Map.empty, messageCounts = Map.empty\<rparr>"
      by (simp add: f(2) st_waiting_eq socket_join_def sid_distinct roomBA_not_sid)
  qed (simp_all add: f st_waiting_eq socket_join_def sid_distinct)
qed

lemma reachable_lobby: "reachable st_lobby"
  unfolding st_lobby_def
  by (intro reachable.connect reachable.start)
     (simp_all add: sid_valid on_connection_def socket_join_def init_def sid_distinct)

lemma reachable_waiting: "reachable st_waiting"
proof -
  have "handle 0 0 sidA (JoinQueue (Some joinA)) st_lobby =
          Inr (st_waiting, snd (on_join_queue sidA (Some joinA) st_lobby))"
    by (simp add: st_waiting_def)
  moreover have "sockets st_lobby sidA \<noteq> None" by (simp add: st_lobby_eq sid_distinct)
  ultimately show ?thesis by (rule reachable.event [OF reachable_lobby, rotated])
qed

lemma reachable_paired: "reachable st_paired"
proof -
  have "handle 0 0 sidB (JoinQueue (Some joinB)) st_waiting =
          Inr (st_paired, snd (on_join_queue sidB (Some joinB) st_waiting))"
    by (simp add: st_paired_def)
  moreover have "sockets st_waiting sidB \<noteq> None" by (simp add: st_waiting_eq sid_distinct)
  ultimately show ?thesis by (rule reachable.event [OF reachable_waiting, rotated])
qed

subsection \<open>Messages\<close>

lemma st_paired_fields:
  "sockets st_paired sidA \<noteq> None" "sockets st_paired sidB \<noteq> None"
  "sockets st_paired sidC \<noteq> None"
  "rooms st_paired roomBA = [sidB, sidA]"
  "rooms st_paired sidA = [sidA]" "rooms st_paired sidB = [sidB]" "rooms st_paired sidC = [sidC]"
  "waitingQueue st_paired = []"
  "activeRooms st_paired = [(sidB, roomBA), (sidA, roomBA)]"
  "publicKeys st_paired = Map.empty" "messageCounts st_paired = Map.empty"
  by (simp_all add: st_paired_eq sid_distinct roomBA_not_sid)

lemma send_hi:
  "s = sidA \<or> s = sidB \<or> s = sidC \<Longrightarrow>
   on_send_message 42 42 s (Some msg_hi) st_paired =
     Inr (st_paired\<lparr>messageCounts := [s \<mapsto> \<lparr>count = 1, resetTime = 1042\<rparr>]\<rparr>,
          map (\<lambda>m. (m, ReceiveMessage recv_hi)) (filter (\<lambda>m. m \<noteq> s) [sidB, sidA]))"
  by (simp add: on_send_message_def checkMessageRateLimit_def RATE_WINDOW_def st_paired_fields
        msg_hi_def recv_hi_def socket_to_def js_or_def)

text \<open>
  C6. When the rate limiter rejects a \<^verbatim>\<open>send_message\<close>, the handler returns with the
  state as it was and with exactly one emission, \<^verbatim>\<open>rate_limit_exceeded\<close> to the sender:
  nothing is delivered to any other connection, whatever the payload.
\<close>

theorem rate_limited_message_dropped:
  assumes "\<not> fst (checkMessageRateLimit now s (messageCounts st))"
  shows "\<exists>out. on_send_message now stamp s data st = Inr (st, out)
           \<and> out = [(s, RateLimitExceeded ''Sending messages too fast. Please slow down.'')]
           \<and> (\<forall>p ev. (p, ev) \<in> set out \<longrightarrow> p = s \<and> (\<forall>m. ev \<noteq> ReceiveMessage m))"
proof -
  have "snd (checkMessageRateLimit now s (messageCounts st)) = messageCounts st"
    using assms by (auto simp: checkMessageRateLimit_def split: option.splits if_splits)
  then show ?thesis
    using assms by (simp add: on_send_message_def split_beta Let_def socket_emit_def)
qed

theorem rate_limited_message_dropped_witness:
  "\<not> fst (checkMessageRateLimit 500 sidB [sidB \<mapsto> \<lparr>count = 10, resetTime = 1000\<rparr>])
   \<and> on_send_message 500 500 sidB (Some msg_hi)
        (st_paired\<lparr>messageCounts := [sidB \<mapsto> \<lparr>count = 10, resetTime = 1000\<rparr>]\<rparr>) =
      Inr (st_paired\<lparr>messageCounts := [sidB \<mapsto> \<lparr>count = 10, resetTime = 1000\<rparr>]\<rparr>,
           [(sidB, RateLimitExceeded ''Sending messages too fast. Please slow down.'')])"
proof -
  have rej: "\<not> fst (checkMessageRateLimit 500 sidB [sidB \<mapsto> \<lparr>count = 10, resetTime = 1000\<rparr>])"
    by (simp add: checkMessageRateLimit_def MESSAGE_RATE_LIMIT_def)
  then show ?thesis
    using rate_limited_message_dropped
      [where now = 500 and stamp = 500 and s = sidB and data = "Some msg_hi"
         and st = "st_paired\<lparr>messageCounts := [sidB \<mapsto> \<lparr>count = 10, resetTime = 1000\<rparr>]\<rparr>"]
    by auto
qed

text \<open>
  C10. Every \<^verbatim>\<open>receive_message\<close> that \<^verbatim>\<open>send_message\<close> emits carries the id of the
  payload if that id is truthy, and the server's \<^verbatim>\<open>Date.now()\<close> otherwise. So an id of
  0 or of the empty string is replaced by the time stamp, and the receiver's id then
  differs from the one the sender supplied (when the time stamp is not 0 itself).
\<close>

theorem relayed_message_id:
  assumes "on_send_message now stamp s (Some d) st = Inr (st', out)"
    and "(p, ReceiveMessage m) \<in> set out"
  shows "r_id m = (if js_truthy (m_id d) then m_id d else JNum stamp)
         \<and> (m_id d = JNum 0 \<or> m_id d = JStr [] \<longrightarrow> r_id m = JNum stamp)
         \<and> (m_id d = JNum 0 \<and> stamp \<noteq> 0 \<longrightarrow> r_id m \<noteq> m_id d)"
proof -
  have "r_id m = js_or (m_id d) (JNum stamp)"
    using assms
    by (cases "m_roomId d")
       (auto simp: on_send_message_def split_beta Let_def socket_emit_def socket_to_def
          split: if_splits)
  then show ?thesis by (auto simp: js_or_def)
qed

theorem relayed_message_id_witness:
  "on_send_message 42 42 sidB (Some msg_hi) st_paired =
     Inr (st_paired\<lparr>messageCounts := [sidB \<mapsto> \<lparr>count = 1, resetTime = 1042\<rparr>]\<rparr>,
          [(sidA, ReceiveMessage recv_hi)])
   \<and> m_id msg_hi = JNum 0 \<and> r_id recv_hi = JNum 42"
proof -
  have run: "on_send_message 42 42 sidB (Some msg_hi) st_paired =
     Inr (st_paired\<lparr>messageCounts := [sidB \<mapsto> \<lparr>count = 1, resetTime = 1042\<rparr>]\<rparr>,
          [(sidA, ReceiveMessage recv_hi)])"
    using send_hi [of sidB] by (simp add: sid_distinct)
  have "(sidA, ReceiveMessage recv_hi) \<in> set [(sidA, ReceiveMessage recv_hi)]" by simp
  from relayed_message_id [OF run this] have "r_id recv_hi = JNum 42"
    by (simp add: msg_hi_def)
  with run show ?thesis by (simp add: msg_hi_def)
qed

lemma distinct_singleton_set: "distinct xs \<Longrightarrow> set xs = {x} \<Longrightarrow> xs = [x]"
proof (cases xs)
  case Nil
  assume "set xs = {x}" with Nil show ?thesis by simp
next
  case (Cons y ys)
  assume d: "distinct xs" and s: "set xs = {x}"
  from s Cons have y: "y = x" by auto
  from d s Cons y have "ys = []" by (cases ys) auto
  with Cons y show ?thesis by simp
qed

lemma room_partner_only:
  assumes inv: "server_inv st" and ms: "map_of (activeRooms st) s = Some r"
    and mp: "map_of (activeRooms st) p = Some r" and ps: "p \<noteq> s"
  shows "filter (\<lambda>m. m \<noteq> s) (rooms st r) = [p]"
proof -
  from paired_facts [OF inv ms] obtain p' where p': "p' \<noteq> s" "valid_sid s" "valid_sid p'"
      "r = room_name s p' \<or> r = room_name p' s"
      "\<And>q. map_of (activeRooms st) q = Some r \<Longrightarrow> q = s \<or> q = p'"
    by blast
  have pp: "p' = p" using p'(5) [OF mp] ps by simp
  from inv have ro: "rooms_ok st" by (simp add: server_inv_def)
  have sub: "set (rooms st r) \<subseteq> {s, p}"
    using ro p'(2,3,4) pp unfolding rooms_ok_def by blast
  have mem: "s \<in> set (rooms st r)" "p \<in> set (rooms st r)"
    using ro ms mp unfolding rooms_ok_def by blast+
  have d: "distinct (rooms st r)" using ro by (simp add: rooms_ok_def)
  have "set (filter (\<lambda>m. m \<noteq> s) (rooms st r)) = {p}"
    using sub mem ps by auto
  moreover have "distinct (filter (\<lambda>m. m \<noteq> s) (rooms st r))" using d by simp
  ultimately show ?thesis by (rule distinct_singleton_set [rotated])
qed

lemma room_of_cong: "rooms st' = rooms st \<Longrightarrow> room_of st' v = room_of st v"
  by (cases v) simp_all

lemma recipients_cong:
  assumes "rooms st' = rooms st" "sids st' = sids st"
  shows "recipients st' s v = recipients st s v"
proof (cases v)
  case (JArr rs)
  have "room_of st' x = room_of st x" for x
    using assms(1) by (rule room_of_cong)
  then have "room_of st' = room_of st" by (rule ext)
  then show ?thesis using JArr assms(2) by simp
qed (simp_all add: assms)

lemma socket_to_val_recipients:
  "socket_to_val st s v ev = map (\<lambda>m. (m, ev)) (recipients st s v)"
  by (cases v) (simp_all add: socket_to_def)

lemma first_occurrences_set: "set (first_occurrences xs) = set xs"
  by (simp add: first_occurrences_def)

lemma first_occurrences_distinct: "distinct (first_occurrences xs)"
  by (simp add: first_occurrences_def)

lemma room_of_member: "m \<in> set (room_of st v) \<longleftrightarrow> (\<exists>r. v = JStr r \<and> m \<in> set (rooms st r))"
  by (cases v) simp_all

lemma recipients_array:
  "rs \<noteq> [] \<Longrightarrow>
   set (recipients st s (JArr rs)) = {m. m \<noteq> s \<and> (\<exists>r. JStr r \<in> set rs \<and> m \<in> set (rooms st r))}"
  by (auto simp: first_occurrences_set room_of_member)

subsection \<open>The sockets the adapter knows\<close>

lemma on_skip_sids: "sids (fst (on_skip s st)) = sids st" "sockets (fst (on_skip s st)) = sockets st"
  by (auto simp: on_skip_def Let_def socket_leave_def split: option.splits)

lemma on_disconnect_sids:
  "sids (fst (on_disconnect s st)) = filter (\<lambda>m. m \<noteq> s) (sids st)"
  "sockets (fst (on_disconnect s st)) = (sockets st)(s := None)"
  by (auto simp: on_disconnect_def Let_def leave_all_def split: option.splits)

lemma on_join_queue_sids:
  assumes "s \<in> set (sids st)" "set (waitingQueue st) \<subseteq> set (sids st)"
  shows "sids (fst (on_join_queue s data st)) = sids st"
  using assms
  by (auto simp: on_join_queue_def Let_def socket_join_def split: list.splits)

lemma relay_sids:
  assumes "handle now stamp s ev st = Inr (st', out)"
    and "ev \<noteq> Skip" "ev \<noteq> Disconnect" "\<forall>d. ev \<noteq> JoinQueue d"
  shows "sids st' = sids st"
  using assms
  by (cases ev)
     (auto simp: on_exchange_keys_def on_send_message_def on_typing_def on_stop_typing_def
         on_edit_message_def on_delete_message_def Let_def split_beta
       split: option.splits jsval.splits if_splits)

lemma reachable_sids: "reachable st \<Longrightarrow> distinct (sids st) \<and> set (sids st) = dom (sockets st)"
proof (induction rule: reachable.induct)
  case start
  show ?case by (simp add: init_def)
next
  case (connect st s)
  then have "s \<notin> set (sids st)" by (auto simp: domIff)
  with connect show ?case by (auto simp: on_connection_fields)
next
  case (event st s now stamp ev st' out)
  have c: "s \<in> dom (sockets st)" using event.hyps(2) by (simp add: domIff)
  have inv: "server_inv st" using event.hyps(1) by (rule reachable_inv)
  show ?case
  proof (cases "ev = Skip \<or> ev = Disconnect \<or> (\<exists>d. ev = JoinQueue d)")
    case True
    then consider "ev = Skip" | "ev = Disconnect" | d where "ev = JoinQueue d" by blast
    then show ?thesis
    proof cases
      case 1
      then have "st' = fst (on_skip s st)" using event.hyps(3) by simp
      then show ?thesis using event.IH by (simp add: on_skip_sids)
    next
      case 2
      then have "st' = fst (on_disconnect s st)" using event.hyps(3) by simp
      then show ?thesis using event.IH by (auto simp: on_disconnect_sids split: if_splits)
    next
      case 3
      then have st': "st' = fst (on_join_queue s d st)" using event.hyps(3) by simp
      have "set (waitingQueue st) \<subseteq> set (sids st)"
        using inv event.IH by (auto simp: server_inv_def queue_ok_def)
      moreover have "s \<in> set (sids st)" using c event.IH by simp
      ultimately have "sids st' = sids st" unfolding st' by (intro on_join_queue_sids)
      moreover have "dom (sockets st') = dom (sockets st)"
        using c by (simp add: st' on_join_queue_sockets insert_absorb)
      ultimately show ?thesis using event.IH by simp
    qed
  next
    case False
    then have "sockets st' = sockets st" "sids st' = sids st"
      using relay_fields [OF event.hyps(3)] relay_sids [OF event.hyps(3)] by blast+
    then show ?thesis using event.IH by simp
  qed
qed

subsection \<open>Relaying a message\<close>

lemma on_send_message_admitted:
  assumes "fst (checkMessageRateLimit now s (messageCounts st))"
  shows "on_send_message now stamp s (Some d) st =
     Inr (st\<lparr>messageCounts := snd (checkMessageRateLimit now s (messageCounts st))\<rparr>,
          map (\<lambda>m. (m, ReceiveMessage (relayed stamp d))) (recipients st s (m_roomId d)))"
proof -
  have "recipients (st\<lparr>messageCounts := mc\<rparr>) s v = recipients st s v" for mc v
    by (rule recipients_cong) simp_all
  then show ?thesis
    using assms
    by (simp add: on_send_message_def split_beta Let_def socket_to_val_recipients relayed_def)
qed

lemma recipients_distinct:
  assumes "reachable st"
  shows "distinct (recipients st s v)"
proof (cases v)
  case (JStr r)
  have "distinct (rooms st r)"
    using reachable_inv [OF assms] by (simp add: server_inv_def rooms_ok_def)
  then show ?thesis using JStr by simp
next
  case (JArr rs)
  then show ?thesis
    using reachable_sids [OF assms] by (simp add: first_occurrences_distinct)
qed simp_all

text \<open>
  C4, as the code has it. A \<^verbatim>\<open>send_message\<close> with a payload (the handler throws on
  \<^verbatim>\<open>undefined\<close> and \<^verbatim>\<open>null\<close>) that the rate limiter admits is relayed
  as \<^verbatim>\<open>receive_message\<close>, once each, to the sockets that \<^verbatim>\<open>socket.to(roomId)\<close>
  addresses for the \<^verbatim>\<open>roomId\<close> of the payload, the sender left out: the members of the
  room that a string names; the members of the rooms that the string elements of an array
  name; every connected socket when the array is empty; nobody for any other value. The
  handler does not read \<^verbatim>\<open>activeRooms\<close>: with any other registry the emissions are the
  same, so the sender need not be paired. A paired sender that names its own room reaches
  its partner and nobody else.
\<close>

theorem send_message_relays_by_room:
  assumes "reachable st"
  shows "(fst (checkMessageRateLimit now s (messageCounts st)) \<longrightarrow>
            on_send_message now stamp s (Some d) st =
              Inr (st\<lparr>messageCounts := snd (checkMessageRateLimit now s (messageCounts st))\<rparr>,
                   map (\<lambda>m. (m, ReceiveMessage (relayed stamp d)))
                     (recipients st s (m_roomId d))))
         \<and> distinct (recipients st s v)
         \<and> (\<forall>r. recipients st s (JStr r) = filter (\<lambda>m. m \<noteq> s) (rooms st r))
         \<and> (\<forall>rs. rs \<noteq> [] \<longrightarrow>
               set (recipients st s (JArr rs)) =
                 {m. m \<noteq> s \<and> (\<exists>r. JStr r \<in> set rs \<and> m \<in> set (rooms st r))})
         \<and> set (recipients st s (JArr [])) = dom (sockets st) - {s}
         \<and> ((\<forall>r. v \<noteq> JStr r) \<and> (\<forall>rs. v \<noteq> JArr rs) \<longrightarrow> recipients st s v = [])
         \<and> map_sum id snd (on_send_message now stamp s data (st\<lparr>activeRooms := ar\<rparr>)) =
             map_sum id snd (on_send_message now stamp s data st)
         \<and> (\<forall>p r. fst (checkMessageRateLimit now s (messageCounts st)) \<and>
               map_of (activeRooms st) s = Some r \<and> map_of (activeRooms st) p = Some r \<and>
               p \<noteq> s \<and> m_roomId d = JStr r \<longrightarrow>
               map_sum id snd (on_send_message now stamp s (Some d) st) =
                 Inr [(p, ReceiveMessage (relayed stamp d))])"
proof (intro conjI impI allI)
  assume "fst (checkMessageRateLimit now s (messageCounts st))"
  then show "on_send_message now stamp s (Some d) st =
              Inr (st\<lparr>messageCounts := snd (checkMessageRateLimit now s (messageCounts st))\<rparr>,
                   map (\<lambda>m. (m, ReceiveMessage (relayed stamp d)))
                     (recipients st s (m_roomId d)))"
    by (rule on_send_message_admitted)
next
  show "distinct (recipients st s v)" using assms by (rule recipients_distinct)
next
  fix r show "recipients st s (JStr r) = filter (\<lambda>m. m \<noteq> s) (rooms st r)" by simp
next
  fix rs :: "jsval list" assume "rs \<noteq> []"
  then show "set (recipients st s (JArr rs)) =
                 {m. m \<noteq> s \<and> (\<exists>r. JStr r \<in> set rs \<and> m \<in> set (rooms st r))}"
    by (rule recipients_array)
next
  show "set (recipients st s (JArr [])) = dom (sockets st) - {s}"
    using reachable_sids [OF assms] by auto
next
  assume "(\<forall>r. v \<noteq> JStr r) \<and> (\<forall>rs. v \<noteq> JArr rs)"
  then show "recipients st s v = []" by (cases v) simp_all
next
  have same: "recipients (st\<lparr>activeRooms := ar, messageCounts := mc\<rparr>) s w =
              recipients (st\<lparr>messageCounts := mc\<rparr>) s w" for mc w
    by (rule recipients_cong) simp_all
  show "map_sum id snd (on_send_message now stamp s data (st\<lparr>activeRooms := ar\<rparr>)) =
        map_sum id snd (on_send_message now stamp s data st)"
    by (cases data)
       (simp_all add: on_send_message_def split_beta Let_def socket_to_val_recipients same)
next
  fix p r
  assume a: "fst (checkMessageRateLimit now s (messageCounts st)) \<and>
               map_of (activeRooms st) s = Some r \<and> map_of (activeRooms st) p = Some r \<and>
               p \<noteq> s \<and> m_roomId d = JStr r"
  have "filter (\<lambda>m. m \<noteq> s) (rooms st r) = [p]"
    using reachable_inv [OF assms] a by (intro room_partner_only) simp_all
  then show "map_sum id snd (on_send_message now stamp s (Some d) st) =
                 Inr [(p, ReceiveMessage (relayed stamp d))]"
    using a by (simp add: on_send_message_admitted)
qed

theorem send_message_relays_by_room_witness:
  "reachable st_paired
   \<and> fst (checkMessageRateLimit 42 sidB (messageCounts st_paired))
   \<and> map_of (activeRooms st_paired) sidB = Some roomBA
   \<and> map_of (activeRooms st_paired) sidA = Some roomBA
   \<and> on_send_message 42 42 sidB (Some msg_hi) st_paired =
       Inr (st_paired\<lparr>messageCounts := [sidB \<mapsto> \<lparr>count = 1, resetTime = 1042\<rparr>]\<rparr>,
            [(sidA, ReceiveMessage (relayed 42 msg_hi))])
   \<and> map_sum id snd (on_send_message 42 42 sidB (Some msg_hi) st_paired) =
       Inr [(sidA, ReceiveMessage (relayed 42 msg_hi))]
   \<and> set (recipients st_paired sidC (JArr [JNum 7, JStr sidA, JStr roomBA])) = {sidA, sidB}
   \<and> set (recipients st_paired sidC (JArr [])) = {sidA, sidB}
   \<and> recipients st_paired sidC (JNum 7) = []"
proof -
  have adm: "fst (checkMessageRateLimit 42 sidB (messageCounts st_paired))"
    and mc: "snd (checkMessageRateLimit 42 sidB Map.empty) =
             [sidB \<mapsto> \<lparr>count = 1, resetTime = 1042\<rparr>]"
    by (simp_all add: checkMessageRateLimit_def st_paired_fields RATE_WINDOW_def)
  have reg: "map_of (activeRooms st_paired) sidB = Some roomBA"
    "map_of (activeRooms st_paired) sidA = Some roomBA"
    by (simp_all add: st_paired_fields sid_distinct)
  note instB = send_message_relays_by_room
    [OF reachable_paired, where now = 42 and stamp = 42 and s = sidB and d = msg_hi]
  note instC = send_message_relays_by_room
    [OF reachable_paired, where s = sidC and v = "JNum 7"]
  have "on_send_message 42 42 sidB (Some msg_hi) st_paired =
     Inr (st_paired\<lparr>messageCounts := snd (checkMessageRateLimit 42 sidB (messageCounts st_paired))\<rparr>,
          map (\<lambda>m. (m, ReceiveMessage (relayed 42 msg_hi)))
            (recipients st_paired sidB (m_roomId msg_hi)))"
    using instB [THEN conjunct1] adm by (rule mp)
  then have a: "on_send_message 42 42 sidB (Some msg_hi) st_paired =
       Inr (st_paired\<lparr>messageCounts := [sidB \<mapsto> \<lparr>count = 1, resetTime = 1042\<rparr>]\<rparr>,
            [(sidA, ReceiveMessage (relayed 42 msg_hi))])"
    by (simp add: mc msg_hi_def st_paired_fields sid_distinct)
  have "fst (checkMessageRateLimit 42 sidB (messageCounts st_paired)) \<and>
          map_of (activeRooms st_paired) sidB = Some roomBA \<and>
          map_of (activeRooms st_paired) sidA = Some roomBA \<and>
          sidA \<noteq> sidB \<and> m_roomId msg_hi = JStr roomBA"
    using adm reg by (simp add: msg_hi_def sid_distinct)
  then have b: "map_sum id snd (on_send_message 42 42 sidB (Some msg_hi) st_paired) =
       Inr [(sidA, ReceiveMessage (relayed 42 msg_hi))]"
    by (rule instB [THEN conjunct2, THEN conjunct2, THEN conjunct2, THEN conjunct2,
          THEN conjunct2, THEN conjunct2, THEN conjunct2, rule_format])
  have ne: "[JNum 7, JStr sidA, JStr roomBA] \<noteq> []" by simp
  have "set (recipients st_paired sidC (JArr [JNum 7, JStr sidA, JStr roomBA])) =
      {m. m \<noteq> sidC \<and> (\<exists>r. JStr r \<in> set [JNum 7, JStr sidA, JStr roomBA] \<and>
            m \<in> set (rooms st_paired r))}"
    using ne
    by (rule instC [THEN conjunct2, THEN conjunct2, THEN conjunct2, THEN conjunct1,
          rule_format])
  also have "\<dots> = {sidA, sidB}"
    by (auto simp: st_paired_fields sid_distinct)
  finally have c: "set (recipients st_paired sidC (JArr [JNum 7, JStr sidA, JStr roomBA])) =
      {sidA, sidB}" .
  have "set (recipients st_paired sidC (JArr [])) = dom (sockets st_paired) - {sidC}"
    by (rule instC [THEN conjunct2, THEN conjunct2, THEN conjunct2, THEN conjunct2,
          THEN conjunct1])
  also have "\<dots> = {sidA, sidB}"
    by (auto simp: st_paired_eq sid_distinct split: if_splits)
  finally have d: "set (recipients st_paired sidC (JArr [])) = {sidA, sidB}" .
  have "(\<forall>r. JNum 7 \<noteq> JStr r) \<and> (\<forall>rs. JNum 7 \<noteq> JArr rs)" by simp
  then have e: "recipients st_paired sidC (JNum 7) = []"
    by (rule instC [THEN conjunct2, THEN conjunct2, THEN conjunct2, THEN conjunct2,
          THEN conjunct2, THEN conjunct1, rule_format])
  from reachable_paired adm reg a b c d e show ?thesis by (intro conjI)
qed

theorem unpaired_message_relayed:
  "reachable st_paired
   \<and> map_of (activeRooms st_paired) sidC = None
   \<and> on_send_message 42 42 sidC (Some msg_hi) st_paired =
       Inr (st_paired\<lparr>messageCounts := [sidC \<mapsto> \<lparr>count = 1, resetTime = 1042\<rparr>]\<rparr>,
            [(sidB, ReceiveMessage recv_hi), (sidA, ReceiveMessage recv_hi)])"
  using send_hi [of sidC] reachable_paired
  by (simp add: st_paired_fields sid_distinct)

subsection \<open>Skip\<close>

lemma on_skip_registry_clear_or_falsy:
  "map_of (activeRooms (fst (on_skip s st))) s = None
   \<or> map_of (activeRooms (fst (on_skip s st))) s = Some []"
  by (auto simp: on_skip_def Let_def delete_conv' socket_leave_def split: option.splits)

lemma on_skip_no_room:
  assumes "map_of (activeRooms st) s = None \<or> map_of (activeRooms st) s = Some []"
  shows "on_skip s st = (st\<lparr>waitingQueue := filter (\<lambda>x. x \<noteq> s) (waitingQueue st)\<rparr>, [])"
  using assms by (auto simp: on_skip_def)

text \<open>
  C7. A second \<^verbatim>\<open>skip\<close> of the same connection, right after the first, returns the
  state that the first one left (queue, registry and all the rest) and emits nothing, so
  the trace of the two is the trace of the first. A \<^verbatim>\<open>skip\<close> of a connection that maps
  to no room leaves \<^verbatim>\<open>activeRooms\<close> as it is and emits nothing.
\<close>

theorem skip_idempotent:
  "on_skip s (fst (on_skip s st)) = (fst (on_skip s st), [])
   \<and> snd (on_skip s st) @ snd (on_skip s (fst (on_skip s st))) = snd (on_skip s st)
   \<and> (map_of (activeRooms st) s = None \<longrightarrow>
        activeRooms (fst (on_skip s st)) = activeRooms st \<and> snd (on_skip s st) = [])"
proof -
  let ?st = "fst (on_skip s st)"
  have q: "filter (\<lambda>x. x \<noteq> s) (waitingQueue ?st) = waitingQueue ?st"
    using on_skip_dequeues [of s st] by (auto simp: filter_id_conv)
  have twice: "on_skip s ?st = (?st, [])"
    using on_skip_no_room [OF on_skip_registry_clear_or_falsy, of s st] q by simp
  have none: "map_of (activeRooms st) s = None \<Longrightarrow>
        activeRooms ?st = activeRooms st \<and> snd (on_skip s st) = []"
    by (simp add: on_skip_unpaired)
  from twice none show ?thesis by simp
qed

theorem skip_idempotent_witness:
  "map_of (activeRooms st_paired) sidC = None
   \<and> activeRooms (fst (on_skip sidC st_paired)) = [(sidB, roomBA), (sidA, roomBA)]
   \<and> snd (on_skip sidC st_paired) = []
   \<and> snd (on_skip sidA st_paired) = [(sidB, PartnerDisconnected)]
   \<and> on_skip sidA (fst (on_skip sidA st_paired)) = (fst (on_skip sidA st_paired), [])"
proof -
  have free: "map_of (activeRooms st_paired) sidC = None"
    by (simp add: st_paired_fields sid_distinct)
  with skip_idempotent [of sidC st_paired]
  have a: "activeRooms (fst (on_skip sidC st_paired)) = [(sidB, roomBA), (sidA, roomBA)]
     \<and> snd (on_skip sidC st_paired) = []"
    by (simp add: st_paired_fields)
  have b: "snd (on_skip sidA st_paired) = [(sidB, PartnerDisconnected)]"
    by (simp add: on_skip_def Let_def st_paired_fields sid_distinct roomBA_not_sid
          find_partner_def socket_to_def)
  from skip_idempotent [of sidA st_paired]
  have c: "on_skip sidA (fst (on_skip sidA st_paired)) = (fst (on_skip sidA st_paired), [])"
    by blast
  from free a b c show ?thesis by blast
qed

subsection \<open>The room registry\<close>

lemma set_members_of:
  "distinct (map fst ar) \<Longrightarrow> set (members_of ar r) = {k. map_of ar k = Some r}"
  by (auto simp: members_of_def image_iff)

lemma distinct_members_of:
  "distinct (map fst ar) \<Longrightarrow> distinct (members_of ar r)"
  by (simp add: members_of_def distinct_map_filter)

lemma members_of_pair:
  assumes inv: "server_inv st" and m: "map_of (activeRooms st) s = Some r"
  shows "\<exists>p. p \<noteq> s \<and> set (members_of (activeRooms st) r) = {s, p}
             \<and> length (members_of (activeRooms st) r) = 2"
proof -
  from paired_facts [OF inv m] obtain p where p: "p \<noteq> s"
      "map_of (activeRooms st) p = Some r"
      "\<And>q. map_of (activeRooms st) q = Some r \<Longrightarrow> q = s \<or> q = p"
    by blast
  from inv have d: "distinct (map fst (activeRooms st))"
    by (simp add: server_inv_def registry_ok_def)
  have s: "set (members_of (activeRooms st) r) = {s, p}"
    using p m by (auto simp: set_members_of [OF d])
  have "length (members_of (activeRooms st) r) = card (set (members_of (activeRooms st) r))"
    using distinct_members_of [OF d] by (simp add: distinct_card)
  also have "\<dots> = 2" using p(1) by (simp add: s)
  finally show ?thesis using p(1) s by blast
qed

lemma registry_after_skip:
  assumes inv: "server_inv st" and ms: "map_of (activeRooms st) s = Some r"
    and mp: "map_of (activeRooms st) p = Some r" and ps: "p \<noteq> s"
  shows "map_of (activeRooms (fst (on_skip s st))) = (map_of (activeRooms st))(s := None, p := None)"
    and "find_partner (activeRooms (fst (on_skip s st))) r p = None"
    and "members_of (activeRooms (fst (on_skip s st))) r = []"
proof -
  from paired_facts [OF inv ms] obtain p' where p': "p' \<noteq> s"
      "\<And>q. map_of (activeRooms st) q = Some r \<Longrightarrow> q = s \<or> q = p'"
      "find_partner (activeRooms st) r s = Some p'" "r \<noteq> []" "p' \<noteq> []"
    by blast
  have pp: "p' = p" using p'(2) [OF mp] ps by simp
  let ?ar = "activeRooms (fst (on_skip s st))"
  show ar: "map_of ?ar = (map_of (activeRooms st))(s := None, p := None)"
    using on_skip_paired [OF ms p'(4) p'(3) p'(5)] by (simp add: pp delete_conv')
  have d: "distinct (map fst ?ar)"
    using inv_skip [OF inv, of s] by (simp add: server_inv_def registry_ok_def)
  have gone: "\<forall>q. map_of ?ar q \<noteq> Some r"
    using p'(2) by (auto simp: ar pp)
  show "find_partner ?ar r p = None" using d gone by (rule find_partner_None)
  have "set (members_of ?ar r) = {}" using gone by (simp add: set_members_of [OF d])
  then show "members_of ?ar r = []" by simp
qed

text \<open>
  C3. In every reachable state each connection has at most one entry in
  \<^verbatim>\<open>activeRooms\<close>, and every room that occurs there has exactly two connections mapped to
  it. When one of the two skips or disconnects, the state after the handler maps neither
  of them to a room, no connection maps to that room any more, the partner lookup for the
  former partner finds nobody, and the entries of all other connections are as before.
\<close>

theorem room_registry_pairs:
  assumes "reachable st"
  shows "distinct (map fst (activeRooms st))
    \<and> (\<forall>r \<in> snd ` set (activeRooms st).
          \<exists>a b. a \<noteq> b \<and> set (members_of (activeRooms st) r) = {a, b}
                \<and> length (members_of (activeRooms st) r) = 2)
    \<and> (\<forall>s p r st'.
          map_of (activeRooms st) s = Some r \<and> map_of (activeRooms st) p = Some r \<and> p \<noteq> s \<and>
          (st' = fst (on_skip s st) \<or> st' = fst (on_disconnect s st)) \<longrightarrow>
          map_of (activeRooms st') s = None \<and> map_of (activeRooms st') p = None \<and>
          find_partner (activeRooms st') r p = None \<and> members_of (activeRooms st') r = [] \<and>
          (\<forall>q. q \<noteq> s \<and> q \<noteq> p \<longrightarrow> map_of (activeRooms st') q = map_of (activeRooms st) q))"
proof (intro conjI ballI allI impI)
  note inv = reachable_inv [OF assms]
  show d: "distinct (map fst (activeRooms st))"
    using inv by (simp add: server_inv_def registry_ok_def)
  {
    fix r assume "r \<in> snd ` set (activeRooms st)"
    then obtain k where "(k, r) \<in> set (activeRooms st)" by auto
    then have "map_of (activeRooms st) k = Some r" using d by simp
    from members_of_pair [OF inv this]
    show "\<exists>a b. a \<noteq> b \<and> set (members_of (activeRooms st) r) = {a, b}
                \<and> length (members_of (activeRooms st) r) = 2"
      by metis
  }
  fix s p r st'
  assume a: "map_of (activeRooms st) s = Some r \<and> map_of (activeRooms st) p = Some r \<and> p \<noteq> s \<and>
          (st' = fst (on_skip s st) \<or> st' = fst (on_disconnect s st))"
  then have eq: "activeRooms st' = activeRooms (fst (on_skip s st))"
    by (auto simp: on_disconnect_as_skip)
  from a have ms: "map_of (activeRooms st) s = Some r"
    and mp: "map_of (activeRooms st) p = Some r" and ps: "p \<noteq> s"
    by simp_all
  note after = registry_after_skip [OF inv ms mp ps]
  show "map_of (activeRooms st') s = None" "map_of (activeRooms st') p = None"
    by (simp_all add: eq after(1))
  show "find_partner (activeRooms st') r p = None" "members_of (activeRooms st') r = []"
    by (simp_all add: eq after)
  fix q assume "q \<noteq> s \<and> q \<noteq> p"
  then show "map_of (activeRooms st') q = map_of (activeRooms st) q"
    by (simp add: eq after(1))
qed

theorem room_registry_pairs_witness:
  "reachable st_paired
   \<and> activeRooms st_paired = [(sidB, roomBA), (sidA, roomBA)]
   \<and> members_of (activeRooms st_paired) roomBA = [sidB, sidA]
   \<and> map_of (activeRooms (fst (on_skip sidA st_paired))) sidB = None
   \<and> map_of (activeRooms (fst (on_disconnect sidB st_paired))) sidA = None
   \<and> find_partner (activeRooms (fst (on_disconnect sidB st_paired))) roomBA sidA = None"
proof -
  have reg: "map_of (activeRooms st_paired) sidB = Some roomBA"
    "map_of (activeRooms st_paired) sidA = Some roomBA"
    by (simp_all add: st_paired_fields sid_distinct)
  note inst = room_registry_pairs [OF reachable_paired]
  have a: "map_of (activeRooms (fst (on_skip sidA st_paired))) sidB = None"
    using inst reg sid_distinct(2) by blast
  have b: "map_of (activeRooms (fst (on_disconnect sidB st_paired))) sidA = None
      \<and> find_partner (activeRooms (fst (on_disconnect sidB st_paired))) roomBA sidA = None"
    using inst reg sid_distinct(1) by blast
  have c: "members_of (activeRooms st_paired) roomBA = [sidB, sidA]"
    by (simp add: members_of_def st_paired_fields)
  from reachable_paired a b c show ?thesis by (simp add: st_paired_fields)
qed

subsection \<open>Public keys\<close>

lemma exchange_keys_demo:
  "on_exchange_keys sidB (Some (JStr ''KEY-B'')) st_paired =
     Inr (st_keyed, [(sidA, PartnerPublicKey ''KEY-B'')])"
  by (simp add: on_exchange_keys_def st_keyed_def st_paired_fields sid_distinct roomBA_not_sid
        socket_to_def)

lemma reachable_keyed: "reachable st_keyed"
proof -
  have "handle 0 0 sidB (ExchangeKeys (Some (JStr ''KEY-B''))) st_paired =
          Inr (st_keyed, [(sidA, PartnerPublicKey ''KEY-B'')])"
    by (simp add: exchange_keys_demo)
  moreover have "sockets st_paired sidB \<noteq> None" by (rule st_paired_fields)
  ultimately show ?thesis by (rule reachable.event [OF reachable_paired, rotated])
qed

lemma st_keyed_fields:
  "sockets st_keyed = sockets st_paired" "rooms st_keyed = rooms st_paired"
  "waitingQueue st_keyed = []"
  "activeRooms st_keyed = [(sidB, roomBA), (sidA, roomBA)]"
  "publicKeys st_keyed = [sidB \<mapsto> ''KEY-B'']" "messageCounts st_keyed = Map.empty"
  by (simp_all add: st_keyed_def st_paired_fields)

lemma on_disconnect_publicKeys:
  assumes inv: "server_inv st"
  shows "publicKeys (fst (on_disconnect s st)) s = None"
    and "map_of (activeRooms st) s = Some r \<Longrightarrow> map_of (activeRooms st) p = Some r \<Longrightarrow> p \<noteq> s
         \<Longrightarrow> publicKeys (fst (on_disconnect s st)) p = None"
    and "q \<noteq> s \<Longrightarrow> map_of (activeRooms st) s = None \<or> map_of (activeRooms st) q \<noteq> map_of (activeRooms st) s
         \<Longrightarrow> publicKeys (fst (on_disconnect s st)) q = publicKeys st q"
proof -
  have shape: "publicKeys (fst (on_disconnect s st)) =
    (case map_of (activeRooms st) s of
       None \<Rightarrow> (publicKeys st)(s := None)
     | Some r \<Rightarrow> (publicKeys st)(s := None, the (find_partner (activeRooms st) r s) := None))
    \<and> (\<forall>r. map_of (activeRooms st) s = Some r \<longrightarrow>
          (\<exists>p'. p' \<noteq> s \<and> find_partner (activeRooms st) r s = Some p' \<and>
                map_of (activeRooms st) p' = Some r \<and>
                (\<forall>q. map_of (activeRooms st) q = Some r \<longrightarrow> q = s \<or> q = p')))"
  proof (cases "map_of (activeRooms st) s")
    case None
    then show ?thesis by (simp add: on_disconnect_unpaired)
  next
    case (Some r)
    from paired_facts [OF inv Some] obtain p' where p': "p' \<noteq> s"
        "map_of (activeRooms st) p' = Some r"
        "\<And>q. map_of (activeRooms st) q = Some r \<Longrightarrow> q = s \<or> q = p'"
        "find_partner (activeRooms st) r s = Some p'" "r \<noteq> []" "p' \<noteq> []"
      by blast
    have "publicKeys (fst (on_disconnect s st)) = (publicKeys st)(s := None, p' := None)"
      using on_disconnect_paired [OF Some p'(5) p'(4) p'(6)] by simp
    then show ?thesis using Some p' by auto
  qed
  show "publicKeys (fst (on_disconnect s st)) s = None"
    using shape by (auto split: option.splits)
  show "publicKeys (fst (on_disconnect s st)) p = None"
    if "map_of (activeRooms st) s = Some r" "map_of (activeRooms st) p = Some r" "p \<noteq> s"
    using shape that by (auto split: option.splits)
  show "publicKeys (fst (on_disconnect s st)) q = publicKeys st q"
    if "q \<noteq> s" "map_of (activeRooms st) s = None \<or> map_of (activeRooms st) q \<noteq> map_of (activeRooms st) s"
    using shape that by (auto split: option.splits)
qed

lemma on_skip_publicKeys: "publicKeys (fst (on_skip s st)) = publicKeys st"
  by (auto simp: on_skip_def Let_def socket_leave_def split: option.splits)

text \<open>
  C5, as the code has it. The \<^verbatim>\<open>disconnect\<close> handler deletes the public key of the
  connection and, when the connection is in a room, the public key of its partner as
  well. The keys of all other connections stay as they are, and \<^verbatim>\<open>skip\<close> deletes no key.
\<close>

theorem disconnect_deletes_keys:
  assumes "reachable st"
  shows "publicKeys (fst (on_disconnect s st)) s = None
    \<and> (\<forall>p r. map_of (activeRooms st) s = Some r \<and> map_of (activeRooms st) p = Some r \<and> p \<noteq> s
          \<longrightarrow> publicKeys (fst (on_disconnect s st)) p = None)
    \<and> (\<forall>q. q \<noteq> s \<and> (map_of (activeRooms st) s = None
                     \<or> map_of (activeRooms st) q \<noteq> map_of (activeRooms st) s)
          \<longrightarrow> publicKeys (fst (on_disconnect s st)) q = publicKeys st q)
    \<and> publicKeys (fst (on_skip s st)) = publicKeys st"
proof (intro conjI allI impI)
  note inv = reachable_inv [OF assms]
  show "publicKeys (fst (on_disconnect s st)) s = None"
    by (rule on_disconnect_publicKeys(1) [OF inv])
  show "publicKeys (fst (on_skip s st)) = publicKeys st"
    by (rule on_skip_publicKeys)
  {
    fix p r
    assume "map_of (activeRooms st) s = Some r \<and> map_of (activeRooms st) p = Some r \<and> p \<noteq> s"
    then show "publicKeys (fst (on_disconnect s st)) p = None"
      using on_disconnect_publicKeys(2) [OF inv, of s r p] by simp
  }
  fix q
  assume "q \<noteq> s \<and> (map_of (activeRooms st) s = None
                     \<or> map_of (activeRooms st) q \<noteq> map_of (activeRooms st) s)"
  then show "publicKeys (fst (on_disconnect s st)) q = publicKeys st q"
    using on_disconnect_publicKeys(3) [OF inv, of q s] by simp
qed

theorem disconnect_deletes_keys_witness:
  "reachable st_keyed
   \<and> map_of (activeRooms st_keyed) sidA = Some roomBA
   \<and> map_of (activeRooms st_keyed) sidB = Some roomBA
   \<and> publicKeys (fst (on_disconnect sidA st_keyed)) sidA = None
   \<and> publicKeys (fst (on_disconnect sidA st_keyed)) sidB = None
   \<and> publicKeys (fst (on_disconnect sidC st_keyed)) sidB = Some ''KEY-B''
   \<and> publicKeys (fst (on_skip sidA st_keyed)) sidB = Some ''KEY-B''"
proof -
  have reg: "map_of (activeRooms st_keyed) sidA = Some roomBA"
    "map_of (activeRooms st_keyed) sidB = Some roomBA" "map_of (activeRooms st_keyed) sidC = None"
    by (simp_all add: st_keyed_fields sid_distinct)
  note inst = disconnect_deletes_keys [OF reachable_keyed]
  have a: "publicKeys (fst (on_disconnect sidA st_keyed)) sidA = None"
    using inst [of sidA] by blast
  have b: "publicKeys (fst (on_disconnect sidA st_keyed)) sidB = None"
    using inst [of sidA] reg sid_distinct(2) by blast
  have "publicKeys (fst (on_disconnect sidC st_keyed)) sidB = publicKeys st_keyed sidB"
    using inst [of sidC] reg sid_distinct(5) by blast
  then have c: "publicKeys (fst (on_disconnect sidC st_keyed)) sidB = Some ''KEY-B''"
    by (simp add: st_keyed_fields)
  have d: "publicKeys (fst (on_skip sidA st_keyed)) sidB = Some ''KEY-B''"
    using inst [of sidA] by (simp add: st_keyed_fields)
  from reachable_keyed reg a b c d show ?thesis by blast
qed

theorem partner_disconnect_deletes_key:
  "reachable st_keyed
   \<and> publicKeys st_keyed sidB = Some ''KEY-B''
   \<and> sockets (fst (on_disconnect sidA st_keyed)) sidB \<noteq> None
   \<and> publicKeys (fst (on_disconnect sidA st_keyed)) sidB = None"
proof -
  have "find_partner (activeRooms st_keyed) roomBA sidA = Some sidB"
    by (simp add: find_partner_def st_keyed_fields sid_distinct)
  moreover have "map_of (activeRooms st_keyed) sidA = Some roomBA"
    by (simp add: st_keyed_fields sid_distinct)
  ultimately have "on_disconnect sidA st_keyed =
     (st_keyed\<lparr>rooms := (\<lambda>r. filter (\<lambda>m. m \<noteq> sidA) (rooms st_keyed r)),
         sids := filter (\<lambda>m. m \<noteq> sidA) (sids st_keyed),
         sockets := (sockets st_keyed)(sidA := None),
         waitingQueue := filter (\<lambda>x. x \<noteq> sidA) (waitingQueue st_keyed),
         messageCounts := (messageCounts st_keyed)(sidA := None),
         activeRooms := AList.delete sidB (AList.delete sidA (activeRooms st_keyed)),
         publicKeys := (publicKeys st_keyed)(sidA := None, sidB := None)\<rparr>,
      map (\<lambda>m. (m, PartnerDisconnected)) (filter (\<lambda>m. m \<noteq> sidA) (rooms st_keyed roomBA)))"
    using roomBA_not_sid(7) valid_sid_nonempty [OF sid_valid(2)]
    by (intro on_disconnect_paired) simp_all
  then show ?thesis
    using reachable_keyed by (simp add: st_keyed_fields st_paired_fields sid_distinct)
qed

lemma socket_to_events: "(t, e) \<in> set (socket_to st s r ev) \<Longrightarrow> e = ev"
  by (auto simp: socket_to_def)

lemma socket_to_val_events: "(t, e) \<in> set (socket_to_val st s v ev) \<Longrightarrow> e = ev"
  by (cases v) (auto dest: socket_to_events)

lemma on_join_queue_events:
  "(t, e) \<in> set (snd (on_join_queue s data st)) \<Longrightarrow> \<exists>r n pic. e = ChatStart r n pic"
  by (auto simp: on_join_queue_def Let_def io_to_def split: if_splits list.splits)

lemma on_skip_events: "(t, e) \<in> set (snd (on_skip s st)) \<Longrightarrow> e = PartnerDisconnected"
  by (auto simp: on_skip_def Let_def split: option.splits if_splits dest: socket_to_events)

lemma on_disconnect_events:
  "(t, e) \<in> set (snd (on_disconnect s st)) \<Longrightarrow> e = PartnerDisconnected"
  by (auto simp: on_disconnect_def Let_def split: option.splits if_splits dest: socket_to_events)

lemma on_send_message_events:
  "on_send_message now stamp s data st = Inr (st', out) \<Longrightarrow> (t, e) \<in> set out \<Longrightarrow>
   (\<exists>m. e = ReceiveMessage m) \<or> (\<exists>m. e = RateLimitExceeded m)"
  by (auto simp: on_send_message_def Let_def split_beta socket_emit_def
        split: if_splits option.splits dest: socket_to_val_events)

lemma on_exchange_keys_events:
  "on_exchange_keys s data st = Inr (st', out) \<Longrightarrow> (t, PartnerPublicKey k) \<in> set out \<Longrightarrow>
   data = Some (JStr k)"
  by (auto simp: on_exchange_keys_def Let_def split: option.splits jsval.splits if_splits
        dest: socket_to_events)

lemma partner_key_only_from_exchange:
  assumes "handle now stamp s ev st = Inr (st', out)" "(t, PartnerPublicKey k) \<in> set out"
  shows "ev = ExchangeKeys (Some (JStr k))"
proof (cases ev)
  case (JoinQueue d)
  then show ?thesis using assms on_join_queue_events [of t "PartnerPublicKey k" s d st] by auto
next
  case (ExchangeKeys d)
  then show ?thesis using assms on_exchange_keys_events [of s d st st' out t k] by simp
next
  case (SendMessage d)
  then show ?thesis
    using assms on_send_message_events [of now stamp s d st st' out t "PartnerPublicKey k"] by auto
next
  case (Typing d)
  then show ?thesis
    using assms by (auto simp: on_typing_def split: option.splits dest: socket_to_val_events)
next
  case (StopTyping d)
  then show ?thesis
    using assms by (auto simp: on_stop_typing_def split: option.splits dest: socket_to_val_events)
next
  case (EditMessage d)
  then show ?thesis
    using assms by (auto simp: on_edit_message_def split: option.splits dest: socket_to_val_events)
next
  case (DeleteMessage d)
  then show ?thesis
    using assms
    by (auto simp: on_delete_message_def split: option.splits dest: socket_to_val_events)
next
  case Skip
  then show ?thesis using assms on_skip_events [of t "PartnerPublicKey k" s st] by auto
next
  case Disconnect
  then show ?thesis using assms on_disconnect_events [of t "PartnerPublicKey k" s st] by auto
qed

lemma on_exchange_keys_nonempty:
  assumes inv: "server_inv st" and k: "k \<noteq> []"
  shows "on_exchange_keys s (Some (JStr k)) st =
     Inr (st\<lparr>publicKeys := (publicKeys st)(s \<mapsto> k)\<rparr>,
          case map_of (activeRooms st) s of
            None \<Rightarrow> []
          | Some r \<Rightarrow> map (\<lambda>m. (m, PartnerPublicKey k)) (filter (\<lambda>m. m \<noteq> s) (rooms st r)))"
proof (cases "map_of (activeRooms st) s")
  case None
  then show ?thesis using k by (simp add: on_exchange_keys_def)
next
  case (Some r)
  from paired_facts [OF inv Some] have "r \<noteq> []" by blast
  then show ?thesis using k Some by (simp add: on_exchange_keys_def socket_to_def)
qed

text \<open>
  C8, as the code has it. An \<^verbatim>\<open>exchange_keys\<close> event whose public key is a string that
  is not empty stores the key for the sender, in place of any key stored before (the
  table has one entry per connection). A paired sender's key is forwarded at once to its
  partner, and to nobody else, as \<^verbatim>\<open>partner_public_key\<close>; an unpaired sender's key is
  stored and nothing is emitted. No other event emits \<^verbatim>\<open>partner_public_key\<close>: in
  particular pairing does not deliver a key that was stored earlier.
\<close>

theorem exchange_keys_store_forward:
  assumes "reachable st" and "k \<noteq> []"
  shows "(\<exists>out. on_exchange_keys s (Some (JStr k)) st =
                 Inr (st\<lparr>publicKeys := (publicKeys st)(s \<mapsto> k)\<rparr>, out)
            \<and> (map_of (activeRooms st) s = None \<longrightarrow> out = [])
            \<and> (\<forall>p r. map_of (activeRooms st) s = Some r \<and> map_of (activeRooms st) p = Some r
                      \<and> p \<noteq> s \<longrightarrow> out = [(p, PartnerPublicKey k)]))
    \<and> (\<forall>now stamp s' ev st' out' t k'.
          handle now stamp s' ev st = Inr (st', out') \<and> (t, PartnerPublicKey k') \<in> set out'
          \<longrightarrow> ev = ExchangeKeys (Some (JStr k')))"
proof (intro conjI allI impI)
  note inv = reachable_inv [OF assms(1)]
  let ?out = "case map_of (activeRooms st) s of
            None \<Rightarrow> []
          | Some r \<Rightarrow> map (\<lambda>m. (m, PartnerPublicKey k)) (filter (\<lambda>m. m \<noteq> s) (rooms st r))"
  have run: "on_exchange_keys s (Some (JStr k)) st =
     Inr (st\<lparr>publicKeys := (publicKeys st)(s \<mapsto> k)\<rparr>, ?out)"
    using inv assms(2) by (rule on_exchange_keys_nonempty)
  have unp: "map_of (activeRooms st) s = None \<longrightarrow> ?out = []" by simp
  have par: "?out = [(p, PartnerPublicKey k)]"
    if "map_of (activeRooms st) s = Some r \<and> map_of (activeRooms st) p = Some r \<and> p \<noteq> s"
    for p r
    using that room_partner_only [OF inv, of s r p] by simp
  show "\<exists>out. on_exchange_keys s (Some (JStr k)) st =
                 Inr (st\<lparr>publicKeys := (publicKeys st)(s \<mapsto> k)\<rparr>, out)
            \<and> (map_of (activeRooms st) s = None \<longrightarrow> out = [])
            \<and> (\<forall>p r. map_of (activeRooms st) s = Some r \<and> map_of (activeRooms st) p = Some r
                      \<and> p \<noteq> s \<longrightarrow> out = [(p, PartnerPublicKey k)])"
  proof (intro exI [of _ ?out] conjI allI)
    show "on_exchange_keys s (Some (JStr k)) st =
            Inr (st\<lparr>publicKeys := (publicKeys st)(s \<mapsto> k)\<rparr>, ?out)"
      by (rule run)
    show "map_of (activeRooms st) s = None \<longrightarrow> ?out = []" by (rule unp)
    fix p r
    show "map_of (activeRooms st) s = Some r \<and> map_of (activeRooms st) p = Some r \<and> p \<noteq> s
          \<longrightarrow> ?out = [(p, PartnerPublicKey k)]"
      using par [of r p] by blast
  qed
next
  fix now stamp s' ev st' out' t k'
  assume "handle now stamp s' ev st = Inr (st', out') \<and> (t, PartnerPublicKey k') \<in> set out'"
  then show "ev = ExchangeKeys (Some (JStr k'))"
    using partner_key_only_from_exchange [of now stamp s' ev st st' out' t k'] by simp
qed

theorem exchange_keys_store_forward_witness:
  "reachable st_paired \<and> reachable st_lobby
   \<and> on_exchange_keys sidB (Some (JStr ''KEY-B'')) st_paired =
       Inr (st_paired\<lparr>publicKeys := [sidB \<mapsto> ''KEY-B'']\<rparr>, [(sidA, PartnerPublicKey ''KEY-B'')])
   \<and> on_exchange_keys sidB (Some (JStr ''KEY-B'')) st_lobby =
       Inr (st_lobby\<lparr>publicKeys := [sidB \<mapsto> ''KEY-B'']\<rparr>, [])"
proof -
  have reg: "map_of (activeRooms st_paired) sidB = Some roomBA"
    "map_of (activeRooms st_paired) sidA = Some roomBA" "map_of (activeRooms st_lobby) sidB = None"
    by (simp_all add: st_paired_fields st_lobby_eq sid_distinct)
  have ne: "''KEY-B'' \<noteq> []" by simp
  from exchange_keys_store_forward [OF reachable_paired ne, of sidB] reg(1,2) sid_distinct(1)
  have a: "on_exchange_keys sidB (Some (JStr ''KEY-B'')) st_paired =
       Inr (st_paired\<lparr>publicKeys := (publicKeys st_paired)(sidB \<mapsto> ''KEY-B'')\<rparr>,
            [(sidA, PartnerPublicKey ''KEY-B'')])"
    by blast
  from exchange_keys_store_forward [OF reachable_lobby ne, of sidB] reg(3)
  have b: "on_exchange_keys sidB (Some (JStr ''KEY-B'')) st_lobby =
       Inr (st_lobby\<lparr>publicKeys := (publicKeys st_lobby)(sidB \<mapsto> ''KEY-B'')\<rparr>, [])"
    by blast
  have "publicKeys st_paired = Map.empty" "publicKeys st_lobby = Map.empty"
    by (simp_all add: st_paired_fields st_lobby_eq)
  with a b reachable_paired reachable_lobby show ?thesis by simp
qed

theorem empty_key_not_stored:
  "reachable st_paired
   \<and> on_exchange_keys sidA (Some (JStr [])) st_paired = Inr (st_paired, [])
   \<and> publicKeys st_paired sidA = None"
  using reachable_paired by (simp add: on_exchange_keys_def st_paired_fields)

subsection \<open>Matching\<close>

lemma own_room:
  assumes "server_inv st" "s \<in> dom (sockets st)"
  shows "io_to st s ev = [(s, ev)]"
proof -
  have "valid_sid s" using assms by (auto simp: server_inv_def ids_ok_def)
  then have "rooms st s = [s]" using assms by (simp add: server_inv_def rooms_ok_def)
  then show ?thesis by (simp add: io_to_def)
qed

lemma on_join_queue_chat_start:
  assumes inv: "server_inv st" and c: "s \<in> dom (sockets st)"
    and free: "map_of (activeRooms st) s = None" and nq: "s \<notin> set (waitingQueue st)"
    and qu: "waitingQueue st = p # rest"
  shows "snd (on_join_queue s data st) =
           [(s, ChatStart (room_name s p) (data_username (data_of st p))
                  (data_profilePic (data_of st p))),
            (p, ChatStart (room_name s p) (data_username (stored_data data))
                  (data_profilePic (stored_data data)))]"
    and "set (rooms (fst (on_join_queue s data st)) (room_name s p)) = {s, p}"
    and "p \<noteq> s"
proof -
  let ?st = "fst (on_join_queue s data st)"
  note f = on_join_queue_pair [OF free nq qu, of data]
  have inv': "server_inv ?st" using inv c by (rule inv_join_queue)
  have q: "queue_ok st" and i: "ids_ok st" and ro: "rooms_ok st"
    using inv by (simp_all add: server_inv_def)
  have pc: "p \<in> dom (sockets st)" using q qu by (auto simp: queue_ok_def)
  show ps: "p \<noteq> s" using nq qu by auto
  have dom: "dom (sockets ?st) = dom (sockets st)" using c by (simp add: f insert_absorb)
  have "io_to ?st s ev = [(s, ev)]" "io_to ?st p ev = [(p, ev)]" for ev
    using own_room [OF inv'] c pc by (simp_all add: dom)
  then show "snd (on_join_queue s data st) =
           [(s, ChatStart (room_name s p) (data_username (data_of st p))
                  (data_profilePic (data_of st p))),
            (p, ChatStart (room_name s p) (data_username (stored_data data))
                  (data_profilePic (stored_data data)))]"
    by (simp add: f(7))
  have "valid_sid s" "valid_sid p" using i c pc by (auto simp: ids_ok_def)
  then have "set (rooms st (room_name s p)) \<subseteq> {s, p}" using ro by (simp add: rooms_ok_def)
  then show "set (rooms ?st (room_name s p)) = {s, p}"
    by (auto simp: f(2) rooms_after_pair(2))
qed

text \<open>
  C1, as the code has it. Every \<^verbatim>\<open>join_queue\<close> first overwrites the connection's
  display name with the sanitized \<^verbatim>\<open>username\<close> of the payload and its avatar with the
  payload's \<^verbatim>\<open>profilePic\<close>, stored as submitted. If the connection
  maps to a room or is in the queue already, that is all: queue, rooms, keys and counters
  stay as they are and nothing is emitted. Otherwise, when the queue is not empty, its
  first (oldest) entry is removed and paired with the requester: both map to the new room
  \<^verbatim>\<open>room_<requester>_<partner>\<close>, both are members of the socket.io room of that name, and
  \<^verbatim>\<open>chat_start\<close> goes to the requester with the partner's name and avatar and to the
  partner with the requester's, each with the room. When the queue is empty the requester
  is appended to it. What is stored for a payload is \<open>stored_data\<close>: the name sanitized,
  the avatar unchanged.
\<close>

theorem join_queue_matching:
  assumes "reachable st" and "sockets st s \<noteq> None"
  shows "(map_of (activeRooms st) s \<noteq> None \<or> s \<in> set (waitingQueue st) \<longrightarrow>
            on_join_queue s data st =
              (st\<lparr>sockets := (sockets st)(s \<mapsto> stored_data data)\<rparr>, []))
    \<and> (map_of (activeRooms st) s = None \<and> waitingQueue st = [] \<longrightarrow>
            on_join_queue s data st =
              (st\<lparr>sockets := (sockets st)(s \<mapsto> stored_data data),
                  waitingQueue := waitingQueue st @ [s]\<rparr>, []))
    \<and> (\<forall>p rest st' r.
          map_of (activeRooms st) s = None \<and> s \<notin> set (waitingQueue st) \<and>
          waitingQueue st = p # rest \<and> st' = fst (on_join_queue s data st) \<and> r = room_name s p
          \<longrightarrow>
          p \<noteq> s \<and> waitingQueue st' = rest \<and>
          activeRooms st' = AList.update p r (AList.update s r (activeRooms st)) \<and>
          map_of (activeRooms st') s = Some r \<and> map_of (activeRooms st') p = Some r \<and>
          set (rooms st' r) = {s, p} \<and>
          sockets st' = (sockets st)(s \<mapsto> stored_data data) \<and>
          publicKeys st' = publicKeys st \<and> messageCounts st' = messageCounts st \<and>
          snd (on_join_queue s data st) =
            [(s, ChatStart r (data_username (data_of st p)) (data_profilePic (data_of st p))),
             (p, ChatStart r (data_username (stored_data data))
                   (data_profilePic (stored_data data)))])
    \<and> stored_data data =
          \<lparr>data_username =
             JStr (sanitizeUsername (case data of None \<Rightarrow> JUndefined | Some d \<Rightarrow> username d)),
           data_profilePic = (case data of None \<Rightarrow> JUndefined | Some d \<Rightarrow> profilePic d)\<rparr>"
proof (intro conjI allI impI)
  show "stored_data data =
          \<lparr>data_username =
             JStr (sanitizeUsername (case data of None \<Rightarrow> JUndefined | Some d \<Rightarrow> username d)),
           data_profilePic = (case data of None \<Rightarrow> JUndefined | Some d \<Rightarrow> profilePic d)\<rparr>"
    by (simp add: stored_data_def)
next
  assume "map_of (activeRooms st) s \<noteq> None \<or> s \<in> set (waitingQueue st)"
  then show "on_join_queue s data st =
              (st\<lparr>sockets := (sockets st)(s \<mapsto> stored_data data)\<rparr>, [])"
    by (rule on_join_queue_ignored)
next
  assume "map_of (activeRooms st) s = None \<and> waitingQueue st = []"
  then show "on_join_queue s data st =
              (st\<lparr>sockets := (sockets st)(s \<mapsto> stored_data data),
                  waitingQueue := waitingQueue st @ [s]\<rparr>, [])"
    by (simp add: on_join_queue_enqueue)
next
  fix p rest st' r
  assume a: "map_of (activeRooms st) s = None \<and> s \<notin> set (waitingQueue st) \<and>
          waitingQueue st = p # rest \<and> st' = fst (on_join_queue s data st) \<and> r = room_name s p"
  then have free: "map_of (activeRooms st) s = None" and nq: "s \<notin> set (waitingQueue st)"
    and qu: "waitingQueue st = p # rest" and st': "st' = fst (on_join_queue s data st)"
    and r: "r = room_name s p"
    by blast+
  have c: "s \<in> dom (sockets st)" using assms(2) by (simp add: domIff)
  note f = on_join_queue_pair [OF free nq qu, of data]
  note g = on_join_queue_chat_start [OF reachable_inv [OF assms(1)] c free nq qu]
  show ps: "p \<noteq> s" by (rule g(3))
  show "waitingQueue st' = rest" by (simp add: st' f)
  show "activeRooms st' = AList.update p r (AList.update s r (activeRooms st))"
    by (simp add: st' r f)
  show "map_of (activeRooms st') s = Some r" "map_of (activeRooms st') p = Some r"
    using ps by (simp_all add: st' r f update_conv')
  show "set (rooms st' r) = {s, p}" by (simp add: st' r g(2))
  show "sockets st' = (sockets st)(s \<mapsto> stored_data data)" by (simp add: st' f)
  show "publicKeys st' = publicKeys st" "messageCounts st' = messageCounts st"
    by (simp_all add: st' f)
  show "snd (on_join_queue s data st) =
            [(s, ChatStart r (data_username (data_of st p)) (data_profilePic (data_of st p))),
             (p, ChatStart r (data_username (stored_data data))
                   (data_profilePic (stored_data data)))]"
    by (simp add: r g(1))
qed

theorem join_queue_matching_witness:
  "reachable st_waiting \<and> sockets st_waiting sidA \<noteq> None \<and> sockets st_waiting sidB \<noteq> None
   \<and> on_join_queue sidA (Some joinB) st_waiting =
       (st_waiting\<lparr>sockets := (sockets st_waiting)(sidA \<mapsto> stored_data (Some joinB))\<rparr>, [])
   \<and> waitingQueue st_paired = []
   \<and> activeRooms st_paired = [(sidB, roomBA), (sidA, roomBA)]
   \<and> snd (on_join_queue sidB (Some joinB) st_waiting) =
       [(sidB, ChatStart roomBA (JStr ''Alice'') (JObj ''alice.png'')),
        (sidA, ChatStart roomBA (JStr ''Bob'') JNull)]
   \<and> on_join_queue sidA (Some joinA) st_lobby =
       (st_lobby\<lparr>sockets := (sockets st_lobby)(sidA \<mapsto> stored_data (Some joinA)),
                 waitingQueue := [sidA]\<rparr>, [])"
proof -
  have ca: "sockets st_waiting sidA \<noteq> None" and cb: "sockets st_waiting sidB \<noteq> None"
    and cl: "sockets st_lobby sidA \<noteq> None"
    by (simp_all add: st_waiting_eq st_lobby_eq sid_distinct)
  have wq: "waitingQueue st_waiting = sidA # []" "sidA \<in> set (waitingQueue st_waiting)"
    "sidB \<notin> set (waitingQueue st_waiting)" "map_of (activeRooms st_waiting) sidB = None"
    "map_of (activeRooms st_lobby) sidA = None" "waitingQueue st_lobby = []"
    by (simp_all add: st_waiting_eq st_lobby_eq sid_distinct)
  from join_queue_matching [OF reachable_waiting ca, of "Some joinB"] wq(2)
  have a: "on_join_queue sidA (Some joinB) st_waiting =
       (st_waiting\<lparr>sockets := (sockets st_waiting)(sidA \<mapsto> stored_data (Some joinB))\<rparr>, [])"
    by blast
  from join_queue_matching [OF reachable_waiting cb, of "Some joinB"] wq(1,3,4)
  have "waitingQueue (fst (on_join_queue sidB (Some joinB) st_waiting)) = []
     \<and> activeRooms (fst (on_join_queue sidB (Some joinB) st_waiting)) =
         AList.update sidA (room_name sidB sidA)
           (AList.update sidB (room_name sidB sidA) (activeRooms st_waiting))
     \<and> snd (on_join_queue sidB (Some joinB) st_waiting) =
         [(sidB, ChatStart (room_name sidB sidA) (data_username (data_of st_waiting sidA))
                   (data_profilePic (data_of st_waiting sidA))),
          (sidA, ChatStart (room_name sidB sidA) (data_username (stored_data (Some joinB)))
                   (data_profilePic (stored_data (Some joinB))))]"
    by blast
  then have b: "waitingQueue st_paired = []
     \<and> activeRooms st_paired = [(sidB, roomBA), (sidA, roomBA)]
     \<and> snd (on_join_queue sidB (Some joinB) st_waiting) =
       [(sidB, ChatStart roomBA (JStr ''Alice'') (JObj ''alice.png'')),
        (sidA, ChatStart roomBA (JStr ''Bob'') JNull)]"
    by (simp add: st_paired_def roomBA_def st_waiting_eq data_of_def stored_data_def joinB_def
          sanitize_demo sid_distinct del: sanitizeUsername.simps)
  from join_queue_matching [OF reachable_lobby cl, of "Some joinA"] wq(5,6)
  have c: "on_join_queue sidA (Some joinA) st_lobby =
       (st_lobby\<lparr>sockets := (sockets st_lobby)(sidA \<mapsto> stored_data (Some joinA)),
                 waitingQueue := [sidA]\<rparr>, [])"
    by simp
  from reachable_waiting ca cb a b c show ?thesis by blast
qed

theorem repeated_join_changes_name:
  "reachable st_waiting
   \<and> sidA \<in> set (waitingQueue st_waiting)
   \<and> data_username (data_of st_waiting sidA) = JStr ''Alice''
   \<and> data_username (data_of (fst (on_join_queue sidA (Some joinB) st_waiting)) sidA) = JStr ''Bob''
   \<and> fst (on_join_queue sidA (Some joinB) st_waiting) \<noteq> st_waiting"
proof -
  have a: "data_username (data_of st_waiting sidA) = JStr ''Alice''"
    and q: "sidA \<in> set (waitingQueue st_waiting)"
    by (simp_all add: st_waiting_eq data_of_def sid_distinct)
  have b: "data_username (data_of (fst (on_join_queue sidA (Some joinB) st_waiting)) sidA) =
           JStr ''Bob''"
    by (simp add: on_join_queue_def st_waiting_eq data_of_def joinB_def sanitize_demo
          sid_distinct del: sanitizeUsername.simps)
  from a b have "fst (on_join_queue sidA (Some joinB) st_waiting) \<noteq> st_waiting"
    by auto
  with reachable_waiting q a b show ?thesis by blast
qed

end
